theory Spec2Isabelle
  imports Main "HOL-Library.Sublist" "HOL-Library.Multiset"
begin

section \<open>Values, collaborators and observable events\<close>

text \<open>
  The development embeds \<^verbatim>\<open>src/detox/src/artifacts/ArtifactsManager.js\<close>.
  The manager is asynchronous JavaScript: every \<^verbatim>\<open>await\<close> is a point where other code
  may run. The embedding therefore is a labelled transition system. A label is either a call
  made from outside (the test runner, the device, a plugin using \<^verbatim>\<open>artifactsApi\<close>) or a
  moment at which the JavaScript job queue resumes suspended code of the manager. The
  synchronous stretch of code that runs at a label is a HOL function named after the source
  function it belongs to.

  Plugins, artifacts and idle callbacks are code from outside the class. Of each the embedding
  keeps its identity and how a call into it ends; what such code does to the manager in
  between, it does through calls from outside, which a schedule may hold at any place. A call
  into a collaborator is taken to end: its promise settles or the call throws.

  \<^verbatim>\<open>preparePathForArtifact\<close> touches the file system and the path builder only, and no field of
  the class; it is left out. \<^verbatim>\<open>registerArtifactPlugins\<close> is given the plugins its factories
  return.
\<close>

text \<open>\<^verbatim>\<open>this._pid\<close> is a JavaScript number; the constructor stores \<^verbatim>\<open>NaN\<close>.\<close>

datatype jsnum = NaN | Num int

text \<open>JavaScript truthiness, as used by \<^verbatim>\<open>!this._deviceId\<close>, \<^verbatim>\<open>!this._bundleId\<close> and
  \<^verbatim>\<open>!this._pid\<close>: the empty string, \<^verbatim>\<open>NaN\<close> and \<^verbatim>\<open>0\<close> are falsy.\<close>

definition truthyStr :: "string \<Rightarrow> bool" where
  "truthyStr x = (x \<noteq> [])"

fun truthyNum :: "jsnum \<Rightarrow> bool" where
  "truthyNum NaN = False"
| "truthyNum (Num n) = (n \<noteq> 0)"

text \<open>How a call into a collaborator (a plugin hook, an artifact's \<^verbatim>\<open>discard()\<close>, an idle
  callback) ends: its promise fulfils, its promise rejects, or the call throws
  synchronously before it returns anything.\<close>

datatype outcome = Fulfils | Rejects | Throws

text \<open>The hooks a plugin offers; \<^verbatim>\<open>plugin[methodName]\<close> selects one of them.\<close>

datatype hook =
    OnBeforeAll | OnBeforeTest | OnBeforeResetDevice | OnResetDevice
  | OnRelaunchApp | OnAfterTest | OnAfterAll | OnTerminate

fun methodName :: "hook \<Rightarrow> string" where
  "methodName OnBeforeAll = ''onBeforeAll''"
| "methodName OnBeforeTest = ''onBeforeTest''"
| "methodName OnBeforeResetDevice = ''onBeforeResetDevice''"
| "methodName OnResetDevice = ''onResetDevice''"
| "methodName OnRelaunchApp = ''onRelaunchApp''"
| "methodName OnAfterTest = ''onAfterTest''"
| "methodName OnAfterAll = ''onAfterAll''"
| "methodName OnTerminate = ''onTerminate''"

text \<open>The argument lists handed to \<^verbatim>\<open>_emit\<close>: \<^verbatim>\<open>[]\<close>, \<^verbatim>\<open>[testSummary]\<close>,
  \<^verbatim>\<open>[{ deviceId }]\<close> and \<^verbatim>\<open>[{ deviceId, bundleId, pid }]\<close>.\<close>

datatype payload =
    NoArgs
  | TestSummary string
  | DeviceInfo string
  | LaunchInfo string string jsnum

text \<open>A plugin is an external collaborator: its \<^verbatim>\<open>name\<close> and, for each hook, how a call of
  that hook ends.\<close>

record plugin =
  name :: string
  reacts :: "hook \<Rightarrow> outcome"

text \<open>An artifact is an object with a \<^verbatim>\<open>discard()\<close> method; the number stands for the
  object's identity.\<close>

datatype artifact = Artifact nat outcome

fun discard :: "artifact \<Rightarrow> outcome" where
  "discard (Artifact i r) = r"

text \<open>An idle callback is a function object; the number stands for its identity.\<close>

datatype callback = Callback nat outcome

fun ends :: "callback \<Rightarrow> outcome" where
  "ends (Callback i r) = r"

text \<open>What the manager does to its collaborators, in the order it does it: the calls it makes
  into plugins, artifacts and idle callbacks, how those calls ended, and what it writes to
  the logger. The number in the three events about hooks says which activation of a method of
  the manager made the call (its position in \<open>frames\<close>, see below), so that the hook calls of
  two fan-outs of the same event can be told apart.\<close>

datatype event =
    HookInvoked nat plugin hook payload
  | HookFulfilled nat plugin hook
  | HookFailed nat plugin hook
  | DiscardInvoked artifact
  | DiscardFulfilled artifact
  | DiscardFailed artifact
  | IdleStarted callback
  | IdleFulfilled callback
  | IdleFailed callback
  | LogError string string
  | LogVerbose string
  | LogInfo string

datatype error = DetoxRuntimeError string

section \<open>The manager's state\<close>

text \<open>An activation of one of the manager's \<^verbatim>\<open>async\<close> methods, suspended at an
  \<^verbatim>\<open>await\<close> or finished. Its position in the list \<open>frames\<close> identifies the promise the
  method returned to its caller.

  \<^item> \<open>Emitting m a ps\<close>: inside \<^verbatim>\<open>_emit(m, a)\<close>, waiting for \<^verbatim>\<open>Promise.all\<close>; the hooks of
    \<open>ps\<close> have been called and have not settled yet.
  \<^item> \<open>AwaitingIdle n\<close>: \<^verbatim>\<open>onAfterAll\<close> at \<^verbatim>\<open>await this._idlePromise\<close>, where the promise read
    was link \<open>n\<close> of the idle chain.
  \<^item> \<open>Terminating ps\<close>: \<^verbatim>\<open>onTerminate\<close> at its first \<^verbatim>\<open>await\<close>; the \<^verbatim>\<open>onTerminate\<close> hooks
    of \<open>ps\<close> have not settled yet.
  \<^item> \<open>Discarding as\<close>: \<^verbatim>\<open>onTerminate\<close> at its second \<^verbatim>\<open>await\<close>.
  \<^item> \<open>Settled r\<close>: the returned promise is fulfilled or rejected.\<close>

datatype settled = Fulfilled | Rejected

datatype frame =
    Emitting hook payload "plugin list"
  | AwaitingIdle nat
  | Terminating "plugin list"
  | Discarding "artifact list"
  | Settled settled

text \<open>
  The fields of the class, then the state of the JavaScript run time that the class relies on.

  \<^item> \<open>terminateOnce\<close> is the state of the \<^verbatim>\<open>_.once\<close> wrapper stored over \<^verbatim>\<open>onTerminate\<close> in
    the constructor: \<open>None\<close> until the first call, then the promise that call returned.
  \<^item> \<open>idlePromise\<close> is \<^verbatim>\<open>this._idlePromise\<close>. The promise is only ever replaced by
    \<^verbatim>\<open>this._idlePromise.then(...)\<close>, so it is link number \<open>idlePromise\<close> of one chain whose
    link \<open>0\<close> is \<^verbatim>\<open>Promise.resolve()\<close>.
  \<^item> \<open>terminated\<close> is \<^verbatim>\<open>this._terminated\<close>. The constructor does not create the property, so
    reading it gives \<^verbatim>\<open>undefined\<close>, which is falsy: \<open>False\<close>.
  \<^item> \<open>fromOf\<close> holds the \<^verbatim>\<open>_from\<close> property that \<^verbatim>\<open>requestIdleCallback\<close> writes on the
    callback object.
  \<^item> \<open>idleSettled\<close> counts the links of the idle chain that are fulfilled; \<open>idleActive\<close> says
    that the \<^verbatim>\<open>then\<close> callback of the next link has been entered; \<open>idleScheduled\<close> are the
    callbacks it took off the queue and wrapped in \<^verbatim>\<open>Promise.resolve().then(callback)\<close>,
    not yet called; \<open>idleInFlight\<close> are the callbacks that were called and have not settled.
  \<^item> \<open>trace\<close> is the list of events so far.\<close>

record manager =
  terminateOnce :: "nat option"
  idlePromise :: nat
  onIdleCallbacks :: "callback list"
  activeArtifacts :: "artifact list"
  artifactPlugins :: "plugin list"
  deviceId :: string
  bundleId :: string
  pid :: jsnum
  terminated :: bool
  fromOf :: "callback \<Rightarrow> string"
  idleSettled :: nat
  idleActive :: bool
  idleScheduled :: "callback list"
  idleInFlight :: "callback list"
  frames :: "frame list"
  trace :: "event list"

text \<open>The constructor.\<close>

definition initial :: manager where
  "initial = \<lparr> terminateOnce = None, idlePromise = 0, onIdleCallbacks = [],
     activeArtifacts = [], artifactPlugins = [],
     deviceId = [], bundleId = [], pid = NaN, terminated = False,
     fromOf = (\<lambda>c. []), idleSettled = 0, idleActive = False,
     idleScheduled = [], idleInFlight = [], frames = [], trace = [] \<rparr>"

definition emits :: "event \<Rightarrow> manager \<Rightarrow> manager" where
  "emits e s = s\<lparr>trace := trace s @ [e]\<rparr>"

definition pushFrame :: "frame \<Rightarrow> manager \<Rightarrow> manager" where
  "pushFrame f s = s\<lparr>frames := frames s @ [f]\<rparr>"

definition setFrame :: "nat \<Rightarrow> frame \<Rightarrow> manager \<Rightarrow> manager" where
  "setFrame c f s = s\<lparr>frames := (frames s)[c := f]\<rparr>"

definition dropAt :: "nat \<Rightarrow> 'a list \<Rightarrow> 'a list" where
  "dropAt j xs = take j xs @ drop (Suc j) xs"

section \<open>The artifacts API\<close>

text \<open>The three errors the getters throw.\<close>

definition noDeviceId :: error where
  "noDeviceId = DetoxRuntimeError ''Detox Artifacts API had no deviceId at the time of calling''"

definition noBundleId :: error where
  "noBundleId = DetoxRuntimeError ''Detox Artifacts API had no bundleId at the time of calling''"

definition noPid :: error where
  "noPid = DetoxRuntimeError ''Detox Artifacts API had no app pid at the time of calling''"

text \<open>A getter returns what it gives to its caller (\<open>Inl\<close> for a throw) and the state it
  leaves behind.\<close>

definition getDeviceId :: "manager \<Rightarrow> (error + string) \<times> manager" where
  "getDeviceId s =
     (if \<not> truthyStr (deviceId s) then (Inl noDeviceId, s) else (Inr (deviceId s), s))"

definition getBundleId :: "manager \<Rightarrow> (error + string) \<times> manager" where
  "getBundleId s =
     (if \<not> truthyStr (bundleId s) then (Inl noBundleId, s) else (Inr (bundleId s), s))"

definition getPid :: "manager \<Rightarrow> (error + jsnum) \<times> manager" where
  "getPid s =
     (if \<not> truthyNum (pid s) then (Inl noPid, s) else (Inr (pid s), s))"

definition trackArtifact :: "artifact \<Rightarrow> manager \<Rightarrow> manager" where
  "trackArtifact a s = s\<lparr>activeArtifacts := activeArtifacts s @ [a]\<rparr>"

text \<open>\<^verbatim>\<open>untrackArtifact(artifact) { _.pull(this._activeArtifacts, artifact); }\<close> is the one member
  of \<^verbatim>\<open>artifactsApi\<close> written as a method and not as an arrow function. Called as
  \<^verbatim>\<open>artifactsApi.untrackArtifact(a)\<close>, its \<^verbatim>\<open>this\<close> is the object \<^verbatim>\<open>artifactsApi\<close>, not the manager.
  That object has no property \<^verbatim>\<open>_activeArtifacts\<close>, so the call is \<^verbatim>\<open>_.pull(undefined, a)\<close>, which
  returns without touching anything and without throwing. The manager's list is not reached:
  the state stays as it is.\<close>

definition untrackArtifact :: "artifact \<Rightarrow> manager \<Rightarrow> manager" where
  "untrackArtifact a s = s"

text \<open>The synchronous part of \<^verbatim>\<open>requestIdleCallback\<close>: tag the callback, push it, and chain
  one more \<^verbatim>\<open>then\<close> callback on \<^verbatim>\<open>this._idlePromise\<close>.\<close>

definition requestIdleCallback :: "callback \<Rightarrow> plugin \<Rightarrow> manager \<Rightarrow> manager" where
  "requestIdleCallback cb caller s =
     s\<lparr>fromOf := (fromOf s)(cb := name caller),
       onIdleCallbacks := onIdleCallbacks s @ [cb],
       idlePromise := Suc (idlePromise s)\<rparr>"

section \<open>Error reporting\<close>

text \<open>\<^verbatim>\<open>_errorHandler\<close> writes the plugin's name (\<^verbatim>\<open>plugin.name || 'unknown'\<close>) and the phase to
  the logger, and then the error itself; one \<open>LogError\<close> event stands for both lines.\<close>

definition errorHandler :: "string \<Rightarrow> string \<Rightarrow> manager \<Rightarrow> manager" where
  "errorHandler pluginName phase s =
     emits (LogError (if truthyStr pluginName then pluginName else ''unknown'') phase) s"

definition idleCallbackErrorHandle :: "callback \<Rightarrow> manager \<Rightarrow> manager" where
  "idleCallbackErrorHandle cb s = errorHandler (fromOf s cb) ''onIdleCallback'' s"

section \<open>The idle chain\<close>

text \<open>\<^verbatim>\<open>_runNextIdleTask\<close> up to its \<^verbatim>\<open>return\<close>: shift one callback off the queue, if there
  is one, and schedule it.\<close>

definition runNextIdleTask :: "manager \<Rightarrow> manager" where
  "runNextIdleTask s =
     (case onIdleCallbacks s of
        [] \<Rightarrow> s
      | cb # rest \<Rightarrow> s\<lparr>onIdleCallbacks := rest, idleScheduled := idleScheduled s @ [cb]\<rparr>)"

text \<open>\<^verbatim>\<open>_runAllIdleTasks\<close> up to its \<^verbatim>\<open>return\<close>: \<^verbatim>\<open>splice(0)\<close> empties the queue, and every
  callback taken is scheduled.\<close>

definition runAllIdleTasks :: "manager \<Rightarrow> manager" where
  "runAllIdleTasks s =
     s\<lparr>onIdleCallbacks := [], idleScheduled := idleScheduled s @ onIdleCallbacks s\<rparr>"

text \<open>The \<^verbatim>\<open>then\<close> callback that \<^verbatim>\<open>requestIdleCallback\<close> chains. The job queue enters it for
  the next link once the link before is fulfilled; it reads \<^verbatim>\<open>this._terminated\<close> at that
  moment.\<close>

definition idleContinue :: "manager \<Rightarrow> manager option" where
  "idleContinue s =
     (if idleActive s \<or> idlePromise s \<le> idleSettled s then None
      else Some ((if terminated s then runAllIdleTasks else runNextIdleTask)
                   (s\<lparr>idleActive := True\<rparr>)))"

text \<open>\<^verbatim>\<open>Promise.resolve().then(onIdleCallback)\<close>: the callback is called in a later job.\<close>

definition idleInvoke :: "manager \<Rightarrow> manager option" where
  "idleInvoke s =
     (case idleScheduled s of
        [] \<Rightarrow> None
      | cb # rest \<Rightarrow>
          Some (emits (IdleStarted cb)
                 (s\<lparr>idleScheduled := rest, idleInFlight := idleInFlight s @ [cb]\<rparr>)))"

text \<open>A callback that was called settles; a throw or a rejection reaches the \<^verbatim>\<open>catch\<close>
  handler, which reports it.\<close>

definition idleSettles :: "nat \<Rightarrow> manager \<Rightarrow> manager option" where
  "idleSettles j s =
     (if j < length (idleInFlight s)
      then (let cb = idleInFlight s ! j;
                s1 = s\<lparr>idleInFlight := dropAt j (idleInFlight s)\<rparr>
            in Some (if ends cb = Fulfils then emits (IdleFulfilled cb) s1
                     else idleCallbackErrorHandle cb (emits (IdleFailed cb) s1)))
      else None)"

text \<open>The promise returned by the \<^verbatim>\<open>then\<close> callback fulfils when everything it scheduled has
  settled; with it the link of the chain fulfils.\<close>

definition idleDone :: "manager \<Rightarrow> manager option" where
  "idleDone s =
     (if idleActive s \<and> idleScheduled s = [] \<and> idleInFlight s = []
      then Some (s\<lparr>idleActive := False, idleSettled := Suc (idleSettled s)\<rparr>)
      else None)"

section \<open>Fan-out to the plugins\<close>

text \<open>The synchronous part of the \<^verbatim>\<open>map\<close> in \<^verbatim>\<open>_emit\<close>, for the activation \<open>c\<close>: each plugin's hook is
  called inside \<^verbatim>\<open>try\<close>; a hook that throws at once is caught at once and reported.\<close>

fun invokeHooks :: "nat \<Rightarrow> hook \<Rightarrow> payload \<Rightarrow> plugin list \<Rightarrow> manager \<Rightarrow> manager" where
  "invokeHooks c m a [] s = s"
| "invokeHooks c m a (p # ps) s =
     (let s1 = emits (HookInvoked c p m a) s;
          s2 = (if reacts p m = Throws
                then errorHandler (name p) (methodName m) (emits (HookFailed c p m) s1)
                else s1)
      in invokeHooks c m a ps s2)"

definition emit :: "hook \<Rightarrow> payload \<Rightarrow> manager \<Rightarrow> manager" where
  "emit m a s =
     pushFrame (Emitting m a (filter (\<lambda>p. reacts p m \<noteq> Throws) (artifactPlugins s)))
       (invokeHooks (length (frames s)) m a (artifactPlugins s) s)"

section \<open>Lifecycle methods\<close>

definition registerArtifactPlugins :: "plugin list \<Rightarrow> manager \<Rightarrow> manager" where
  "registerArtifactPlugins ps s = s\<lparr>artifactPlugins := ps\<rparr>"

definition onLaunchApp :: "string \<Rightarrow> string \<Rightarrow> jsnum \<Rightarrow> manager \<Rightarrow> manager" where
  "onLaunchApp d b p s =
     (let isFirstTime = \<not> truthyStr (deviceId s);
          s1 = s\<lparr>deviceId := d, bundleId := b, pid := p\<rparr>
      in if \<not> isFirstTime then emit OnRelaunchApp (LaunchInfo d b p) s1
         else pushFrame (Settled Fulfilled) s1)"

definition onBeforeAll :: "manager \<Rightarrow> manager" where
  "onBeforeAll s = emit OnBeforeAll NoArgs s"

definition onBeforeTest :: "string \<Rightarrow> manager \<Rightarrow> manager" where
  "onBeforeTest t s = emit OnBeforeTest (TestSummary t) s"

definition onBeforeResetDevice :: "string \<Rightarrow> manager \<Rightarrow> manager" where
  "onBeforeResetDevice d s = emit OnBeforeResetDevice (DeviceInfo d) s"

definition onResetDevice :: "string \<Rightarrow> manager \<Rightarrow> manager" where
  "onResetDevice d s = emit OnResetDevice (DeviceInfo d) s"

definition onAfterTest :: "string \<Rightarrow> manager \<Rightarrow> manager" where
  "onAfterTest t s = emit OnAfterTest (TestSummary t) s"

text \<open>\<^verbatim>\<open>onAfterAll\<close> up to its first \<^verbatim>\<open>await\<close>; the rest is in \<open>resume\<close>.\<close>

definition onAfterAll :: "manager \<Rightarrow> manager" where
  "onAfterAll s = emit OnAfterAll NoArgs s"

section \<open>Teardown\<close>

text \<open>\<^verbatim>\<open>this._artifactPlugins.map(plugin => plugin.onTerminate())\<close>: no \<^verbatim>\<open>try\<close> surrounds the
  call, so a hook that throws at once ends the \<^verbatim>\<open>map\<close>. The result says whether the \<^verbatim>\<open>map\<close>
  came to its end.\<close>

fun invokeOnTerminate :: "nat \<Rightarrow> plugin list \<Rightarrow> manager \<Rightarrow> manager \<times> bool" where
  "invokeOnTerminate c [] s = (s, True)"
| "invokeOnTerminate c (p # ps) s =
     (let s1 = emits (HookInvoked c p OnTerminate NoArgs) s
      in if reacts p OnTerminate = Throws then (emits (HookFailed c p OnTerminate) s1, False)
         else invokeOnTerminate c ps s1)"

text \<open>The body of \<^verbatim>\<open>onTerminate\<close> up to its first \<^verbatim>\<open>await\<close>. A throw inside an \<^verbatim>\<open>async\<close>
  function rejects the promise it returns.\<close>

definition onTerminateBody :: "manager \<Rightarrow> manager" where
  "onTerminateBody s =
     (case invokeOnTerminate (length (frames s)) (artifactPlugins s) s of
        (s1, finished) \<Rightarrow>
          pushFrame (if finished then Terminating (artifactPlugins s) else Settled Rejected) s1)"

text \<open>\<^verbatim>\<open>this.onTerminate = _.once(this.onTerminate.bind(this))\<close>: the first call runs the body and
  keeps the promise it returned, every later call returns that promise.\<close>

definition onTerminate :: "manager \<Rightarrow> manager" where
  "onTerminate s =
     (case terminateOnce s of
        Some r \<Rightarrow> s
      | None \<Rightarrow> onTerminateBody (s\<lparr>terminateOnce := Some (length (frames s))\<rparr>))"

text \<open>\<^verbatim>\<open>this._activeArtifacts.map(artifact => artifact.discard())\<close>, likewise without \<^verbatim>\<open>try\<close>.\<close>

fun invokeDiscard :: "artifact list \<Rightarrow> manager \<Rightarrow> manager \<times> bool" where
  "invokeDiscard [] s = (s, True)"
| "invokeDiscard (a # as) s =
     (let s1 = emits (DiscardInvoked a) s
      in if discard a = Throws then (emits (DiscardFailed a) s1, False)
         else invokeDiscard as s1)"

text \<open>The body of \<^verbatim>\<open>onTerminate\<close> between its two \<^verbatim>\<open>await\<close>s, for the activation \<open>c\<close>.\<close>

definition discardArtifacts :: "nat \<Rightarrow> manager \<Rightarrow> manager" where
  "discardArtifacts c s =
     (case invokeDiscard (activeArtifacts s) s of
        (s1, finished) \<Rightarrow>
          setFrame c (if finished then Discarding (activeArtifacts s) else Settled Rejected) s1)"

section \<open>Resuming suspended code\<close>

text \<open>One of the promises an activation waits for settles: the promise at position \<open>j\<close> of
  those still pending.

  In \<^verbatim>\<open>_emit\<close> each hook is awaited inside its own \<^verbatim>\<open>try\<close>, so a rejection is reported and the
  promise given to \<^verbatim>\<open>Promise.all\<close> fulfils all the same. In \<^verbatim>\<open>onTerminate\<close> the hooks' and the
  artifacts' promises go to \<^verbatim>\<open>Promise.all\<close> directly: the first rejection rejects it, the
  \<^verbatim>\<open>await\<close> throws, and the promise of \<^verbatim>\<open>onTerminate\<close> rejects.\<close>

definition settles :: "nat \<Rightarrow> nat \<Rightarrow> manager \<Rightarrow> manager option" where
  "settles c j s =
     (if c < length (frames s) then
        (case frames s ! c of
           Emitting m a ps \<Rightarrow>
             (if j < length ps then
                (let p = ps ! j; s1 = setFrame c (Emitting m a (dropAt j ps)) s
                 in Some (if reacts p m = Fulfils then emits (HookFulfilled c p m) s1
                          else errorHandler (name p) (methodName m) (emits (HookFailed c p m) s1)))
              else None)
         | Terminating ps \<Rightarrow>
             (if j < length ps then
                (let p = ps ! j
                 in Some (if reacts p OnTerminate = Fulfils
                          then emits (HookFulfilled c p OnTerminate) (setFrame c (Terminating (dropAt j ps)) s)
                          else emits (HookFailed c p OnTerminate) (setFrame c (Settled Rejected) s)))
              else None)
         | Discarding as \<Rightarrow>
             (if j < length as then
                (let a = as ! j
                 in Some (if discard a = Fulfils
                          then emits (DiscardFulfilled a) (setFrame c (Discarding (dropAt j as)) s)
                          else emits (DiscardFailed a) (setFrame c (Settled Rejected) s)))
              else None)
         | AwaitingIdle n \<Rightarrow> None
         | Settled r \<Rightarrow> None)
      else None)"

text \<open>The promise an activation awaits is fulfilled and the activation runs on to its next
  \<^verbatim>\<open>await\<close> or to its end.

  \<^item> After \<^verbatim>\<open>await this._emit(...)\<close>: \<^verbatim>\<open>onAfterAll\<close> reads \<^verbatim>\<open>this._idlePromise\<close> and awaits it;
    every other method ends.
  \<^item> After \<^verbatim>\<open>await this._idlePromise\<close>: \<^verbatim>\<open>onAfterAll\<close> logs and ends.
  \<^item> After the first \<^verbatim>\<open>await\<close> of \<^verbatim>\<open>onTerminate\<close>: the artifacts are discarded.
  \<^item> After the second: \<^verbatim>\<open>onTerminate\<close> logs and ends.\<close>

definition resume :: "nat \<Rightarrow> manager \<Rightarrow> manager option" where
  "resume c s =
     (if c < length (frames s) then
        (case frames s ! c of
           Emitting m a ps \<Rightarrow>
             (if ps = [] then
                Some (if m = OnAfterAll then setFrame c (AwaitingIdle (idlePromise s)) s
                      else setFrame c (Settled Fulfilled) s)
              else None)
         | AwaitingIdle n \<Rightarrow>
             (if n \<le> idleSettled s
              then Some (setFrame c (Settled Fulfilled)
                          (emits (LogVerbose ''finalized artifacts successfully'') s))
              else None)
         | Terminating ps \<Rightarrow> (if ps = [] then Some (discardArtifacts c s) else None)
         | Discarding as \<Rightarrow>
             (if as = [] then
                Some (setFrame c (Settled Fulfilled)
                       (emits (LogInfo ''terminated all artifacts'') s))
              else None)
         | Settled r \<Rightarrow> None)
      else None)"

section \<open>The transition system\<close>

text \<open>Calls from outside are always possible. \<^verbatim>\<open>subscribeToDeviceEvents\<close> wires the device's
  \<^verbatim>\<open>beforeResetDevice\<close>, \<^verbatim>\<open>resetDevice\<close> and \<^verbatim>\<open>launchApp\<close> events to the methods of the same
  names, so these events are the labels \<open>BeforeResetDevice\<close>, \<open>ResetDevice\<close> and \<open>LaunchApp\<close>. The
  last six labels are moments of the job queue; \<open>step\<close> gives \<open>None\<close> where such a moment cannot
  occur in the state.\<close>

datatype label =
    RegisterArtifactPlugins "plugin list"
  | LaunchApp string string jsnum
  | BeforeAll
  | BeforeTest string
  | BeforeResetDevice string
  | ResetDevice string
  | AfterTest string
  | AfterAll
  | Terminate
  | GetDeviceId
  | GetBundleId
  | GetPid
  | TrackArtifact artifact
  | UntrackArtifact artifact
  | RequestIdleCallback callback plugin
  | Settles nat nat
  | Resume nat
  | IdleContinue
  | IdleInvoke
  | IdleSettles nat
  | IdleDone

fun step :: "label \<Rightarrow> manager \<Rightarrow> manager option" where
  "step (RegisterArtifactPlugins ps) s = Some (registerArtifactPlugins ps s)"
| "step (LaunchApp d b p) s = Some (onLaunchApp d b p s)"
| "step BeforeAll s = Some (onBeforeAll s)"
| "step (BeforeTest t) s = Some (onBeforeTest t s)"
| "step (BeforeResetDevice d) s = Some (onBeforeResetDevice d s)"
| "step (ResetDevice d) s = Some (onResetDevice d s)"
| "step (AfterTest t) s = Some (onAfterTest t s)"
| "step AfterAll s = Some (onAfterAll s)"
| "step Terminate s = Some (onTerminate s)"
| "step GetDeviceId s = Some (snd (getDeviceId s))"
| "step GetBundleId s = Some (snd (getBundleId s))"
| "step GetPid s = Some (snd (getPid s))"
| "step (TrackArtifact a) s = Some (trackArtifact a s)"
| "step (UntrackArtifact a) s = Some (untrackArtifact a s)"
| "step (RequestIdleCallback cb caller) s = Some (requestIdleCallback cb caller s)"
| "step (Settles c j) s = settles c j s"
| "step (Resume c) s = resume c s"
| "step IdleContinue s = idleContinue s"
| "step IdleInvoke s = idleInvoke s"
| "step (IdleSettles j) s = idleSettles j s"
| "step IdleDone s = idleDone s"

fun run :: "label list \<Rightarrow> manager \<Rightarrow> manager option" where
  "run [] s = Some s"
| "run (l # ls) s = (case step l s of None \<Rightarrow> None | Some s1 \<Rightarrow> run ls s1)"

section \<open>Examples\<close>

text \<open>A plugin none of whose hooks fails, for the examples.\<close>

definition recorder :: plugin where
  "recorder = \<lparr> name = ''video'', reacts = (\<lambda>m. Fulfils) \<rparr>"

text \<open>A plugin all of whose hooks reject, for the examples.\<close>

definition crasher :: plugin where
  "crasher = \<lparr> name = ''log'', reacts = (\<lambda>m. Rejects) \<rparr>"

text \<open>A plugin without a name all of whose hooks throw at once, for the examples.\<close>

definition thrower :: plugin where
  "thrower = \<lparr> name = [], reacts = (\<lambda>m. Throws) \<rparr>"

text \<open>Two artifacts whose \<^verbatim>\<open>discard()\<close> succeeds, for the examples.\<close>

definition shot :: artifact where
  "shot = Artifact 0 Fulfils"

definition clip :: artifact where
  "clip = Artifact 1 Fulfils"

text \<open>Three idle callbacks, the second of which rejects, for the examples.\<close>

definition taskA :: callback where
  "taskA = Callback 0 Fulfils"

definition taskB :: callback where
  "taskB = Callback 1 Rejects"

definition taskC :: callback where
  "taskC = Callback 2 Fulfils"

section \<open>Reading schedules and traces\<close>

text \<open>The \<^verbatim>\<open>launchApp\<close> events of a schedule, in order, and the idle callbacks requested in
  it, in order.\<close>

fun launchOf :: "label \<Rightarrow> (string \<times> string \<times> jsnum) list" where
  "launchOf (LaunchApp d b p) = [(d, b, p)]"
| "launchOf l = []"

definition launches :: "label list \<Rightarrow> (string \<times> string \<times> jsnum) list" where
  "launches ls = concat (map launchOf ls)"

fun requestOf :: "label \<Rightarrow> callback list" where
  "requestOf (RequestIdleCallback cb caller) = [cb]"
| "requestOf l = []"

definition requested :: "label list \<Rightarrow> callback list" where
  "requested ls = concat (map requestOf ls)"

text \<open>The events that the synchronous loops over plugins and artifacts add to the trace.\<close>

definition hookEvents :: "nat \<Rightarrow> hook \<Rightarrow> payload \<Rightarrow> plugin list \<Rightarrow> event list" where
  "hookEvents c m a ps =
     concat (map (\<lambda>p. HookInvoked c p m a #
                   (if reacts p m = Throws
                    then [HookFailed c p m,
                          LogError (if truthyStr (name p) then name p else ''unknown'') (methodName m)]
                    else [])) ps)"

fun terminateEvents :: "nat \<Rightarrow> plugin list \<Rightarrow> event list" where
  "terminateEvents c [] = []"
| "terminateEvents c (p # ps) =
     HookInvoked c p OnTerminate NoArgs #
       (if reacts p OnTerminate = Throws then [HookFailed c p OnTerminate] else terminateEvents c ps)"

fun discardEvents :: "artifact list \<Rightarrow> event list" where
  "discardEvents [] = []"
| "discardEvents (a # as) =
     DiscardInvoked a # (if discard a = Throws then [DiscardFailed a] else discardEvents as)"

text \<open>The \<^verbatim>\<open>onRelaunchApp\<close> calls recorded in a trace: which plugin was called with which
  payload.\<close>

fun relaunchOf :: "event \<Rightarrow> (plugin \<times> payload) list" where
  "relaunchOf (HookInvoked c p m a) = (if m = OnRelaunchApp then [(p, a)] else [])"
| "relaunchOf e = []"

definition relaunchCalls :: "event list \<Rightarrow> (plugin \<times> payload) list" where
  "relaunchCalls tr = concat (map relaunchOf tr)"

text \<open>The \<^verbatim>\<open>onRelaunchApp\<close> calls a schedule is expected to cause, read off the schedule alone:
  \<open>ps\<close> are the plugins registered and \<open>prev\<close> the \<^verbatim>\<open>deviceId\<close> of the preceding \<^verbatim>\<open>launchApp\<close>
  event (empty when there was none). A \<^verbatim>\<open>launchApp\<close> event causes one call per registered
  plugin, with its own payload, when \<open>prev\<close> is not empty, and none otherwise.\<close>

fun relaunchFanouts :: "plugin list \<Rightarrow> string \<Rightarrow> label list \<Rightarrow> (plugin \<times> payload) list" where
  "relaunchFanouts ps prev [] = []"
| "relaunchFanouts ps prev (RegisterArtifactPlugins qs # ls) = relaunchFanouts qs prev ls"
| "relaunchFanouts ps prev (LaunchApp d b p # ls) =
     (if truthyStr prev then map (\<lambda>q. (q, LaunchInfo d b p)) ps else [])
       @ relaunchFanouts ps d ls"
| "relaunchFanouts ps prev (l # ls) = relaunchFanouts ps prev ls"

text \<open>The artifacts whose \<^verbatim>\<open>discard()\<close> a trace records as called, one entry per call.\<close>

fun discardedOf :: "event \<Rightarrow> artifact list" where
  "discardedOf (DiscardInvoked a) = [a]"
| "discardedOf e = []"

definition discarded :: "event list \<Rightarrow> artifact list" where
  "discarded tr = concat (map discardedOf tr)"

text \<open>The part of a trace that is about idle callbacks: their starts and their ends.\<close>

fun isIdleEvent :: "event \<Rightarrow> bool" where
  "isIdleEvent (IdleStarted cb) = True"
| "isIdleEvent (IdleFulfilled cb) = True"
| "isIdleEvent (IdleFailed cb) = True"
| "isIdleEvent e = False"

definition idleEvents :: "event list \<Rightarrow> event list" where
  "idleEvents tr = filter isIdleEvent tr"

text \<open>The events of running the callbacks \<open>cbs\<close> strictly one after the other, each to its end
  before the next starts.\<close>

definition idleEnd :: "callback \<Rightarrow> event" where
  "idleEnd cb = (if ends cb = Fulfils then IdleFulfilled cb else IdleFailed cb)"

definition serial :: "callback list \<Rightarrow> event list" where
  "serial cbs = concat (map (\<lambda>cb. [IdleStarted cb, idleEnd cb]) cbs)"

text \<open>The lifecycle calls that fan out, with the hook and the arguments they hand to
  \<^verbatim>\<open>_emit\<close>: the six methods that only call \<^verbatim>\<open>_emit\<close>, and \<^verbatim>\<open>onLaunchApp\<close> when it finds a
  \<^verbatim>\<open>deviceId\<close> stored.\<close>

fun fanoutOf :: "label \<Rightarrow> manager \<Rightarrow> (hook \<times> payload) option" where
  "fanoutOf BeforeAll s = Some (OnBeforeAll, NoArgs)"
| "fanoutOf (BeforeTest t) s = Some (OnBeforeTest, TestSummary t)"
| "fanoutOf (BeforeResetDevice d) s = Some (OnBeforeResetDevice, DeviceInfo d)"
| "fanoutOf (ResetDevice d) s = Some (OnResetDevice, DeviceInfo d)"
| "fanoutOf (LaunchApp d b p) s =
     (if truthyStr (deviceId s) then Some (OnRelaunchApp, LaunchInfo d b p) else None)"
| "fanoutOf (AfterTest t) s = Some (OnAfterTest, TestSummary t)"
| "fanoutOf AfterAll s = Some (OnAfterAll, NoArgs)"
| "fanoutOf l s = None"

text \<open>The hook calls recorded in a trace, each with the activation that made it.\<close>

fun hookCallOf :: "event \<Rightarrow> (nat \<times> plugin \<times> hook \<times> payload) list" where
  "hookCallOf (HookInvoked c p m a) = [(c, p, m, a)]"
| "hookCallOf e = []"

definition hookCalls :: "event list \<Rightarrow> (nat \<times> plugin \<times> hook \<times> payload) list" where
  "hookCalls tr = concat (map hookCallOf tr)"

text \<open>How the hook calls made by activation \<open>c\<close> ended, as a trace records it, one entry per
  hook call that ended: the plugin, the hook and whether it fulfilled. \<open>expected m p\<close> is the
  entry for the hook \<open>m\<close> of plugin \<open>p\<close> having run to its end.\<close>

fun endingOf :: "nat \<Rightarrow> event \<Rightarrow> (plugin \<times> hook \<times> bool) list" where
  "endingOf c (HookFulfilled c' p m) = (if c' = c then [(p, m, True)] else [])"
| "endingOf c (HookFailed c' p m) = (if c' = c then [(p, m, False)] else [])"
| "endingOf c e = []"

definition endings :: "nat \<Rightarrow> event list \<Rightarrow> (plugin \<times> hook \<times> bool) list" where
  "endings c tr = concat (map (endingOf c) tr)"

definition expected :: "hook \<Rightarrow> plugin \<Rightarrow> plugin \<times> hook \<times> bool" where
  "expected m p = (p, m, reacts p m = Fulfils)"

text \<open>The activations that the hook events of a trace name.\<close>

fun activationOf :: "event \<Rightarrow> nat list" where
  "activationOf (HookInvoked c p m a) = [c]"
| "activationOf (HookFulfilled c p m) = [c]"
| "activationOf (HookFailed c p m) = [c]"
| "activationOf e = []"

definition activations :: "event list \<Rightarrow> nat list" where
  "activations tr = concat (map activationOf tr)"

text \<open>The labels that are moments of the job queue, not calls from outside.\<close>

fun isJob :: "label \<Rightarrow> bool" where
  "isJob (Settles c j) = True"
| "isJob (Resume c) = True"
| "isJob IdleContinue = True"
| "isJob IdleInvoke = True"
| "isJob (IdleSettles j) = True"
| "isJob IdleDone = True"
| "isJob l = False"

section \<open>Invariants\<close>

text \<open>Invariants of teardown. While an activation of \<^verbatim>\<open>onTerminate\<close> waits at its first
  \<^verbatim>\<open>await\<close> it is the one the \<^verbatim>\<open>_.once\<close> wrapper remembers and nothing has been discarded;
  nothing has been discarded either while \<^verbatim>\<open>onTerminate\<close> was never called. Once
  \<^verbatim>\<open>onTerminate\<close> was called and no activation waits at the first \<^verbatim>\<open>await\<close>, that stays so.\<close>

fun isTerminating :: "frame \<Rightarrow> bool" where
  "isTerminating (Terminating ps) = True"
| "isTerminating f = False"

definition teardownInv :: "manager \<Rightarrow> bool" where
  "teardownInv s =
     ((\<forall>i < length (frames s). isTerminating (frames s ! i) \<longrightarrow>
          terminateOnce s = Some i \<and> discarded (trace s) = [])
      \<and> (terminateOnce s = None \<longrightarrow> discarded (trace s) = []))"

definition teardownPast :: "manager \<Rightarrow> bool" where
  "teardownPast s =
     (terminateOnce s \<noteq> None \<and> (\<forall>i < length (frames s). \<not> isTerminating (frames s ! i)))"

text \<open>The invariant of the idle chain, for the callbacks \<open>R\<close> requested so far. With \<open>k\<close> links
  fulfilled, the first \<open>k\<close> callbacks of \<open>R\<close> have run to their ends, one after the other; while
  the \<^verbatim>\<open>then\<close> callback of link \<open>k + 1\<close> is active, callback number \<open>k\<close> alone is scheduled,
  running or finished; the queue holds the callbacks after these, in order.\<close>

definition chainInv :: "callback list \<Rightarrow> manager \<Rightarrow> bool" where
  "chainInv R s =
     (\<not> terminated s \<and> idlePromise s = length R \<and> idleSettled s \<le> length R \<and>
      (if idleActive s then
         idleSettled s < length R \<and> onIdleCallbacks s = drop (Suc (idleSettled s)) R \<and>
         (idleScheduled s = [R ! idleSettled s] \<and> idleInFlight s = [] \<and>
            idleEvents (trace s) = serial (take (idleSettled s) R)
          \<or> idleScheduled s = [] \<and> idleInFlight s = [R ! idleSettled s] \<and>
            idleEvents (trace s) = serial (take (idleSettled s) R) @ [IdleStarted (R ! idleSettled s)]
          \<or> idleScheduled s = [] \<and> idleInFlight s = [] \<and>
            idleEvents (trace s) = serial (take (Suc (idleSettled s)) R))
       else onIdleCallbacks s = drop (idleSettled s) R \<and>
            idleScheduled s = [] \<and> idleInFlight s = [] \<and>
            idleEvents (trace s) = serial (take (idleSettled s) R)))"

text \<open>Every hook event names an activation that exists.\<close>

definition knownActivations :: "manager \<Rightarrow> bool" where
  "knownActivations s = list_all (\<lambda>c. c < length (frames s)) (activations (trace s))"

text \<open>The invariant of one fan-out, for the activation \<open>c\<close> that called \<^verbatim>\<open>_emit(m, a)\<close> when the
  plugins \<open>ps\<close> were registered: its promise is never rejected; the hook calls it made that
  have ended, together with those still pending, are the hooks of \<open>ps\<close>, each once; once
  \<^verbatim>\<open>await this._emit(...)\<close> has returned, none is pending.\<close>

definition emitInv :: "nat \<Rightarrow> hook \<Rightarrow> payload \<Rightarrow> plugin list \<Rightarrow> manager \<Rightarrow> bool" where
  "emitInv c m a ps s =
     (c < length (frames s) \<and>
      (case frames s ! c of
         Emitting m' a' pend \<Rightarrow>
           m' = m \<and> a' = a \<and>
           mset (endings c (trace s)) + mset (map (expected m) pend) = mset (map (expected m) ps)
       | AwaitingIdle n \<Rightarrow>
           m = OnAfterAll \<and> n \<le> idlePromise s \<and>
           mset (endings c (trace s)) = mset (map (expected m) ps)
       | Terminating pend \<Rightarrow> False
       | Discarding as \<Rightarrow> False
       | Settled r \<Rightarrow> r = Fulfilled \<and> mset (endings c (trace s)) = mset (map (expected m) ps)))"

section \<open>Basic facts\<close>

lemma run_append:
  "run (xs @ ys) s = (case run xs s of None \<Rightarrow> None | Some s1 \<Rightarrow> run ys s1)"
  by (induction xs arbitrary: s) (auto split: option.splits)

lemma run_snoc:
  "run (xs @ [l]) s = (case run xs s of None \<Rightarrow> None | Some s1 \<Rightarrow> step l s1)"
  by (simp add: run_append split: option.splits)

lemma invokeHooks_eq: "invokeHooks c m a ps s = s\<lparr>trace := trace s @ hookEvents c m a ps\<rparr>"
  by (induction ps arbitrary: s) (simp_all add: hookEvents_def emits_def errorHandler_def Let_def)

lemma invokeOnTerminate_eq:
  "invokeOnTerminate c ps s =
     (s\<lparr>trace := trace s @ terminateEvents c ps\<rparr>, list_all (\<lambda>p. reacts p OnTerminate \<noteq> Throws) ps)"
  by (induction ps arbitrary: s) (simp_all add: emits_def Let_def)

lemma invokeDiscard_eq:
  "invokeDiscard as s =
     (s\<lparr>trace := trace s @ discardEvents as\<rparr>, list_all (\<lambda>a. discard a \<noteq> Throws) as)"
  by (induction as arbitrary: s) (simp_all add: emits_def Let_def)

lemmas api_defs = getDeviceId_def getBundleId_def getPid_def trackArtifact_def
  untrackArtifact_def requestIdleCallback_def registerArtifactPlugins_def

lemmas emit_defs = emit_def invokeHooks_eq pushFrame_def setFrame_def emits_def
  errorHandler_def idleCallbackErrorHandle_def

lemmas lifecycle_defs = onLaunchApp_def onBeforeAll_def onBeforeTest_def
  onBeforeResetDevice_def onResetDevice_def onAfterTest_def onAfterAll_def
  onTerminate_def onTerminateBody_def invokeOnTerminate_eq
  discardArtifacts_def invokeDiscard_eq

lemmas queue_defs = settles_def resume_def idleContinue_def idleInvoke_def
  idleSettles_def idleDone_def runNextIdleTask_def runAllIdleTasks_def

lemmas step_defs = api_defs emit_defs lifecycle_defs queue_defs

lemma launches_snoc: "launches (ls @ [l]) = launches ls @ launchOf l"
  by (simp add: launches_def)

lemma requested_append: "requested (xs @ ys) = requested xs @ requested ys"
  by (simp add: requested_def)

section \<open>Run context and its getters\<close>

lemma step_context:
  assumes "step l s = Some s'"
  shows "(deviceId s', bundleId s', pid s') =
           (case launchOf l of [] \<Rightarrow> (deviceId s, bundleId s, pid s) | x # xs \<Rightarrow> x)"
  using assms
  by (cases l) (auto simp: step_defs Let_def split: if_splits list.splits frame.splits option.splits)

lemma run_context:
  "run ls s0 = Some s \<Longrightarrow>
     (deviceId s, bundleId s, pid s) =
       (if launches ls = [] then (deviceId s0, bundleId s0, pid s0) else last (launches ls))"
proof (induction ls arbitrary: s rule: rev_induct)
  case Nil
  then show ?case by (simp add: launches_def)
next
  case (snoc l ls)
  from snoc.prems obtain s1 where r: "run ls s0 = Some s1" and st: "step l s1 = Some s"
    by (auto simp: run_snoc split: option.splits)
  from snoc.IH[OF r] step_context[OF st] show ?case
    by (cases l) (simp_all add: launches_snoc)
qed

text \<open>
  Claim C3, as amended. In every state the manager can reach:
  \<^item> while the schedule holds no \<^verbatim>\<open>launchApp\<close> event, \<^verbatim>\<open>getDeviceId()\<close>, \<^verbatim>\<open>getBundleId()\<close> and
    \<^verbatim>\<open>getPid()\<close> each throw their error;
  \<^item> once it holds one, each getter looks at the value its field received from the most recent
    \<^verbatim>\<open>launchApp\<close> event: it returns that value when it is truthy (a non-empty string, a number
    other than \<^verbatim>\<open>0\<close> and \<^verbatim>\<open>NaN\<close>) and throws the same error when it is falsy;
  \<^item> no getter changes the state.
\<close>

theorem getters_follow_latest_launch:
  assumes "run ls initial = Some s"
  shows "(launches ls = [] \<longrightarrow>
            fst (getDeviceId s) = Inl noDeviceId \<and> fst (getBundleId s) = Inl noBundleId \<and>
            fst (getPid s) = Inl noPid)
       \<and> (launches ls \<noteq> [] \<longrightarrow>
            (case last (launches ls) of (d, b, p) \<Rightarrow>
               fst (getDeviceId s) = (if truthyStr d then Inr d else Inl noDeviceId) \<and>
               fst (getBundleId s) = (if truthyStr b then Inr b else Inl noBundleId) \<and>
               fst (getPid s) = (if truthyNum p then Inr p else Inl noPid)))
       \<and> snd (getDeviceId s) = s \<and> snd (getBundleId s) = s \<and> snd (getPid s) = s"
proof (cases "launches ls = []")
  case True
  with run_context[OF assms] show ?thesis
    by (simp add: getDeviceId_def getBundleId_def getPid_def initial_def truthyStr_def)
next
  case False
  obtain d b p where l: "last (launches ls) = (d, b, p)"
    by (cases "last (launches ls)")
  with False run_context[OF assms] have "deviceId s = d" "bundleId s = b" "pid s = p"
    by simp_all
  with False l show ?thesis
    by (simp add: getDeviceId_def getBundleId_def getPid_def)
qed

text \<open>The theorem at a schedule with one launch, and at the empty schedule.\<close>

theorem getters_follow_latest_launch_witness:
  "run [BeforeAll, LaunchApp ''emulator-5554'' ''com.example.app'' (Num 4711), GetPid] initial
     = Some (onLaunchApp ''emulator-5554'' ''com.example.app'' (Num 4711) (onBeforeAll initial))
   \<and> fst (getDeviceId (onLaunchApp ''emulator-5554'' ''com.example.app'' (Num 4711) (onBeforeAll initial)))
       = Inr ''emulator-5554''
   \<and> fst (getBundleId (onLaunchApp ''emulator-5554'' ''com.example.app'' (Num 4711) (onBeforeAll initial)))
       = Inr ''com.example.app''
   \<and> fst (getPid (onLaunchApp ''emulator-5554'' ''com.example.app'' (Num 4711) (onBeforeAll initial)))
       = Inr (Num 4711)
   \<and> fst (getDeviceId initial) = Inl noDeviceId"
proof -
  have r: "run [BeforeAll, LaunchApp ''emulator-5554'' ''com.example.app'' (Num 4711), GetPid] initial
     = Some (onLaunchApp ''emulator-5554'' ''com.example.app'' (Num 4711) (onBeforeAll initial))"
    by (simp add: getPid_def)
  have e: "run [] initial = Some initial" by simp
  show ?thesis
    using getters_follow_latest_launch[OF r] getters_follow_latest_launch[OF e] r
    by (simp add: launches_def truthyStr_def)
qed

text \<open>The claim as first stated fails: after a \<^verbatim>\<open>launchApp\<close> event that carries an empty
  \<^verbatim>\<open>bundleId\<close> and the \<^verbatim>\<open>pid\<close> \<^verbatim>\<open>0\<close>, \<^verbatim>\<open>getBundleId()\<close> and \<^verbatim>\<open>getPid()\<close> throw instead of
  returning these values.\<close>

theorem getters_reject_falsy_launch_values:
  "fst (getBundleId (onLaunchApp ''emulator-5554'' [] (Num 0) initial)) = Inl noBundleId
   \<and> fst (getPid (onLaunchApp ''emulator-5554'' [] (Num 0) initial)) = Inl noPid"
  by (simp add: getBundleId_def getPid_def onLaunchApp_def initial_def truthyStr_def pushFrame_def)

section \<open>Relaunch fan-out\<close>

lemma relaunchCalls_append [simp]:
  "relaunchCalls (xs @ ys) = relaunchCalls xs @ relaunchCalls ys"
  by (simp add: relaunchCalls_def)

lemma relaunchCalls_Nil [simp]: "relaunchCalls [] = []"
  by (simp add: relaunchCalls_def)

lemma relaunchCalls_Cons [simp]: "relaunchCalls (e # es) = relaunchOf e @ relaunchCalls es"
  by (simp add: relaunchCalls_def)

lemma relaunchCalls_hookEvents:
  "relaunchCalls (hookEvents c m a ps) = (if m = OnRelaunchApp then map (\<lambda>q. (q, a)) ps else [])"
  by (induction ps) (simp_all add: hookEvents_def)

lemma relaunchCalls_terminateEvents [simp]: "relaunchCalls (terminateEvents c ps) = []"
  by (induction ps) simp_all

lemma relaunchCalls_discardEvents [simp]: "relaunchCalls (discardEvents as) = []"
  by (induction as) simp_all

lemma step_relaunch:
  assumes "step l s = Some s'"
  shows "relaunchCalls (trace s') @ relaunchFanouts (artifactPlugins s') (deviceId s') ls
       = relaunchCalls (trace s) @ relaunchFanouts (artifactPlugins s) (deviceId s) (l # ls)"
  using assms
  by (cases l)
     (auto simp: step_defs Let_def relaunchCalls_hookEvents
           split: if_splits list.splits frame.splits option.splits)

lemma run_relaunch:
  "run ls s0 = Some s \<Longrightarrow>
     relaunchCalls (trace s) =
       relaunchCalls (trace s0) @ relaunchFanouts (artifactPlugins s0) (deviceId s0) ls"
proof (induction ls arbitrary: s0)
  case Nil
  then show ?case by simp
next
  case (Cons l ls)
  from Cons.prems obtain s1 where st: "step l s0 = Some s1" and r: "run ls s1 = Some s"
    by (auto split: option.splits)
  from Cons.IH[OF r] step_relaunch[OF st, of ls] show ?case by simp
qed

text \<open>
  Claim C4, as amended. For every schedule, the \<^verbatim>\<open>onRelaunchApp\<close> calls the manager makes are
  exactly these: a \<^verbatim>\<open>launchApp\<close> event causes one \<^verbatim>\<open>onRelaunchApp\<close> call on every registered
  plugin, carrying that event's \<^verbatim>\<open>{deviceId, bundleId, pid}\<close>, when the \<^verbatim>\<open>deviceId\<close> of the
  preceding \<^verbatim>\<open>launchApp\<close> event is not empty; it causes none when there is no preceding
  \<^verbatim>\<open>launchApp\<close> event or when that event's \<^verbatim>\<open>deviceId\<close> is empty. So the first
  \<^verbatim>\<open>launchApp\<close> event never fans out, and among events with non-empty \<^verbatim>\<open>deviceId\<close>s every
  one after the first fans out exactly once.
\<close>

theorem relaunch_fanout_follows_stored_deviceId:
  assumes "run ls initial = Some s"
  shows "relaunchCalls (trace s) = relaunchFanouts [] [] ls"
  using run_relaunch[OF assms] by (simp add: initial_def)

text \<open>The theorem at two launches of the same device.\<close>

theorem relaunch_fanout_follows_stored_deviceId_witness:
  "run [RegisterArtifactPlugins [recorder],
        LaunchApp ''emulator-5554'' ''com.example.app'' (Num 4711),
        LaunchApp ''emulator-5554'' ''com.example.app'' (Num 4712)] initial
     = Some (onLaunchApp ''emulator-5554'' ''com.example.app'' (Num 4712)
              (onLaunchApp ''emulator-5554'' ''com.example.app'' (Num 4711)
                (registerArtifactPlugins [recorder] initial)))
   \<and> relaunchCalls (trace (onLaunchApp ''emulator-5554'' ''com.example.app'' (Num 4712)
              (onLaunchApp ''emulator-5554'' ''com.example.app'' (Num 4711)
                (registerArtifactPlugins [recorder] initial))))
     = [(recorder, LaunchInfo ''emulator-5554'' ''com.example.app'' (Num 4712))]"
proof -
  have r: "run [RegisterArtifactPlugins [recorder],
        LaunchApp ''emulator-5554'' ''com.example.app'' (Num 4711),
        LaunchApp ''emulator-5554'' ''com.example.app'' (Num 4712)] initial
     = Some (onLaunchApp ''emulator-5554'' ''com.example.app'' (Num 4712)
              (onLaunchApp ''emulator-5554'' ''com.example.app'' (Num 4711)
                (registerArtifactPlugins [recorder] initial)))"
    by simp
  show ?thesis
    using relaunch_fanout_follows_stored_deviceId[OF r] r by (simp add: truthyStr_def)
qed

text \<open>The claim as first stated fails: when the first \<^verbatim>\<open>launchApp\<close> event carries an empty
  \<^verbatim>\<open>deviceId\<close>, the second \<^verbatim>\<open>launchApp\<close> event is taken for a first one too; no plugin's
  \<^verbatim>\<open>onRelaunchApp\<close> is called and both calls return at once.\<close>

theorem relaunch_skipped_after_empty_deviceId:
  "relaunchCalls (trace (onLaunchApp ''emulator-5554'' ''com.example.app'' (Num 4712)
                    (onLaunchApp [] ''com.example.app'' (Num 4711)
                      (registerArtifactPlugins [recorder] initial)))) = []
   \<and> frames (onLaunchApp ''emulator-5554'' ''com.example.app'' (Num 4712)
                    (onLaunchApp [] ''com.example.app'' (Num 4711)
                      (registerArtifactPlugins [recorder] initial)))
       = [Settled Fulfilled, Settled Fulfilled]"
  by (simp add: onLaunchApp_def registerArtifactPlugins_def initial_def truthyStr_def pushFrame_def)

section \<open>Teardown: the once wrapper, tracking and discarding\<close>

lemma discarded_append [simp]: "discarded (xs @ ys) = discarded xs @ discarded ys"
  by (simp add: discarded_def)

lemma discarded_Nil [simp]: "discarded [] = []"
  by (simp add: discarded_def)

lemma discarded_Cons [simp]: "discarded (e # es) = discardedOf e @ discarded es"
  by (simp add: discarded_def)

lemma discarded_hookEvents [simp]: "discarded (hookEvents c m a ps) = []"
  by (induction ps) (simp_all add: hookEvents_def)

lemma discarded_terminateEvents [simp]: "discarded (terminateEvents c ps) = []"
  by (induction ps) simp_all

lemma discarded_discardEvents:
  "list_all (\<lambda>a. discard a \<noteq> Throws) as \<Longrightarrow> discarded (discardEvents as) = as"
  by (induction as) simp_all

lemma teardownInv_only:
  assumes "teardownInv s" and "c < length (frames s)" and "isTerminating (frames s ! c)"
  shows "terminateOnce s = Some c" and "discarded (trace s) = []"
    and "\<forall>i < length (frames s). isTerminating (frames s ! i) \<longrightarrow> i = c"
proof -
  show c: "terminateOnce s = Some c" and "discarded (trace s) = []"
    using assms by (simp_all add: teardownInv_def)
  show "\<forall>i < length (frames s). isTerminating (frames s ! i) \<longrightarrow> i = c"
  proof (intro allI impI)
    fix i assume "i < length (frames s)" and "isTerminating (frames s ! i)"
    with assms(1) have "terminateOnce s = Some i" by (simp add: teardownInv_def)
    with c show "i = c" by simp
  qed
qed

lemma resume_teardownInv:
  assumes "resume c s = Some s'" and inv: "teardownInv s"
  shows "teardownInv s'"
proof (cases "c < length (frames s) \<and> isTerminating (frames s ! c)")
  case True
  with assms(1) obtain f where s': "s' = discardArtifacts c s" and fr: "frames s ! c = Terminating []"
    by (cases "frames s ! c") (auto simp: resume_def split: if_splits)
  from True inv have only: "\<forall>i < length (frames s). isTerminating (frames s ! i) \<longrightarrow> i = c"
    and once: "terminateOnce s = Some c"
    using teardownInv_only by blast+
  show ?thesis
    unfolding teardownInv_def s'
    using only once True
    by (auto simp: lifecycle_defs emit_defs nth_list_update)
next
  case False
  with assms show ?thesis
    by (auto simp: teardownInv_def step_defs Let_def nth_append nth_list_update
             split: if_splits list.splits frame.splits option.splits)
qed

lemma step_teardownInv:
  assumes "step l s = Some s'" and "teardownInv s"
  shows "teardownInv s'"
proof (cases l)
  case (Resume c)
  with assms show ?thesis using resume_teardownInv by simp
qed (use assms in \<open>auto simp: teardownInv_def step_defs Let_def nth_append nth_list_update
           split: if_splits list.splits frame.splits option.splits\<close>)

lemma run_teardownInv:
  "run ls s0 = Some s \<Longrightarrow> teardownInv s0 \<Longrightarrow> teardownInv s"
proof (induction ls arbitrary: s0)
  case Nil
  then show ?case by simp
next
  case (Cons l ls)
  from Cons.prems obtain s1 where st: "step l s0 = Some s1" and r: "run ls s1 = Some s"
    by (auto split: option.splits)
  from Cons.IH[OF r step_teardownInv[OF st Cons.prems(2)]] show ?case .
qed

lemma teardownInv_initial: "teardownInv initial"
  by (simp add: teardownInv_def initial_def)

lemma step_teardownPast:
  assumes "step l s = Some s'" and "teardownPast s"
  shows "teardownPast s' \<and> discarded (trace s') = discarded (trace s)"
  using assms
  by (cases l)
     (auto simp: teardownPast_def step_defs Let_def nth_append nth_list_update
           split: if_splits list.splits frame.splits option.splits)

lemma run_teardownPast:
  "run ls s0 = Some s \<Longrightarrow> teardownPast s0 \<Longrightarrow>
     teardownPast s \<and> discarded (trace s) = discarded (trace s0)"
proof (induction ls arbitrary: s0)
  case Nil
  then show ?case by simp
next
  case (Cons l ls)
  from Cons.prems obtain s1 where st: "step l s0 = Some s1" and r: "run ls s1 = Some s"
    by (auto split: option.splits)
  from step_teardownPast[OF st Cons.prems(2)] Cons.IH[OF r] show ?case by simp
qed


lemma step_terminateOnce:
  assumes "step l s = Some s'"
  shows "(l \<noteq> Terminate \<longrightarrow> terminateOnce s' = terminateOnce s)
       \<and> (terminateOnce s \<noteq> None \<longrightarrow> terminateOnce s' = terminateOnce s)
       \<and> (l = Terminate \<longrightarrow> terminateOnce s' \<noteq> None)"
  using assms
  by (cases l)
     (auto simp: step_defs Let_def split: if_splits list.splits frame.splits option.splits)

lemma run_terminateOnce_kept:
  "run ls s0 = Some s \<Longrightarrow> terminateOnce s0 \<noteq> None \<Longrightarrow> terminateOnce s \<noteq> None"
proof (induction ls arbitrary: s0)
  case Nil
  then show ?case by simp
next
  case (Cons l ls)
  from Cons.prems obtain s1 where st: "step l s0 = Some s1" and r: "run ls s1 = Some s"
    by (auto split: option.splits)
  from step_terminateOnce[OF st] Cons.prems(2) have "terminateOnce s1 \<noteq> None" by simp
  from Cons.IH[OF r this] show ?case .
qed

lemma run_terminateOnce_set:
  "run ls s0 = Some s \<Longrightarrow> Terminate \<in> set ls \<Longrightarrow> terminateOnce s \<noteq> None"
proof (induction ls arbitrary: s0)
  case Nil
  then show ?case by simp
next
  case (Cons l ls)
  from Cons.prems obtain s1 where st: "step l s0 = Some s1" and r: "run ls s1 = Some s"
    by (auto split: option.splits)
  show ?case
  proof (cases "l = Terminate")
    case True
    with step_terminateOnce[OF st] have "terminateOnce s1 \<noteq> None" by simp
    from run_terminateOnce_kept[OF r this] show ?thesis .
  next
    case False
    with Cons.prems(2) have "Terminate \<in> set ls" by simp
    from Cons.IH[OF r this] show ?thesis .
  qed
qed

lemma run_terminateOnce_unset:
  "run ls s0 = Some s \<Longrightarrow> Terminate \<notin> set ls \<Longrightarrow> terminateOnce s = terminateOnce s0"
proof (induction ls arbitrary: s0)
  case Nil
  then show ?case by simp
next
  case (Cons l ls)
  from Cons.prems obtain s1 where st: "step l s0 = Some s1" and r: "run ls s1 = Some s"
    by (auto split: option.splits)
  from Cons.prems(2) have "l \<noteq> Terminate" "Terminate \<notin> set ls" by auto
  with step_terminateOnce[OF st] Cons.IH[OF r] show ?case by simp
qed

text \<open>
  Claim C7. Once \<^verbatim>\<open>onTerminate\<close> has been called, a further call changes nothing at all: the
  state after it, trace of hook and \<^verbatim>\<open>discard()\<close> calls and suspended activations included,
  is the state before it, and a schedule with the further call ends exactly as the schedule
  without it. So the body of \<^verbatim>\<open>onTerminate\<close> runs for the first call only.
\<close>

theorem onTerminate_runs_once:
  assumes "run ls initial = Some s" and "Terminate \<in> set ls"
  shows "step Terminate s = Some s
       \<and> run (ls @ Terminate # rest) initial = run (ls @ rest) initial"
proof -
  from run_terminateOnce_set[OF assms] have "terminateOnce s \<noteq> None" .
  then have "step Terminate s = Some s"
    by (auto simp: onTerminate_def)
  with assms(1) show ?thesis
    by (simp add: run_append)
qed

text \<open>The theorem after a first call with one plugin and one artifact.\<close>

theorem onTerminate_runs_once_witness:
  "run [RegisterArtifactPlugins [recorder], TrackArtifact (Artifact 0 Fulfils), Terminate] initial
     = Some (onTerminate (trackArtifact (Artifact 0 Fulfils) (registerArtifactPlugins [recorder] initial)))
   \<and> step Terminate (onTerminate (trackArtifact (Artifact 0 Fulfils) (registerArtifactPlugins [recorder] initial)))
     = Some (onTerminate (trackArtifact (Artifact 0 Fulfils) (registerArtifactPlugins [recorder] initial)))
   \<and> trace (onTerminate (trackArtifact (Artifact 0 Fulfils) (registerArtifactPlugins [recorder] initial)))
     = [HookInvoked 0 recorder OnTerminate NoArgs]"
proof -
  have r: "run [RegisterArtifactPlugins [recorder], TrackArtifact (Artifact 0 Fulfils), Terminate] initial
     = Some (onTerminate (trackArtifact (Artifact 0 Fulfils) (registerArtifactPlugins [recorder] initial)))"
    by simp
  have t: "trace (onTerminate (trackArtifact (Artifact 0 Fulfils) (registerArtifactPlugins [recorder] initial)))
     = [HookInvoked 0 recorder OnTerminate NoArgs]"
    by (simp add: step_defs initial_def recorder_def)
  show ?thesis
    using onTerminate_runs_once[OF r, of "[]"] r t by simp
qed

lemma step_activeArtifacts:
  assumes "step l s = Some s'"
  shows "count_list (activeArtifacts s') x
           = count_list (activeArtifacts s) x + count_list [l] (TrackArtifact x)"
  using assms
  by (cases l)
     (auto simp: step_defs Let_def split: if_splits list.splits frame.splits option.splits)

lemma run_activeArtifacts:
  "run ls initial = Some s \<Longrightarrow> count_list (activeArtifacts s) x = count_list ls (TrackArtifact x)"
proof (induction ls arbitrary: s rule: rev_induct)
  case Nil
  then show ?case by (auto simp: initial_def)
next
  case (snoc l ls)
  from snoc.prems obtain s1 where r: "run ls initial = Some s1" and st: "step l s1 = Some s"
    by (auto simp: run_snoc split: option.splits)
  from snoc.IH[OF r] step_activeArtifacts[OF st, of x] show ?case
    by simp
qed

text \<open>
  Claim C8, as amended. Let \<open>x\<close> be an artifact that was never passed to \<^verbatim>\<open>untrackArtifact\<close>.
  Take teardown at the moment it passes its first \<^verbatim>\<open>await\<close> (every plugin's \<^verbatim>\<open>onTerminate\<close>
  hook has fulfilled) and let no live artifact's \<^verbatim>\<open>discard()\<close> throw synchronously. Then,
  whatever happens afterwards, the trace holds exactly as many \<^verbatim>\<open>discard()\<close> calls on \<open>x\<close> as
  \<open>x\<close> was passed to \<^verbatim>\<open>trackArtifact\<close> until that moment: one if it was tracked once, two if it
  was tracked twice. What teardown does with an artifact that was passed to
  \<^verbatim>\<open>untrackArtifact\<close> is not stated here.
\<close>

theorem teardown_discards_each_tracking:
  assumes "run ls1 initial = Some s1"
    and "c < length (frames s1)" and "frames s1 ! c = Terminating []"
    and "list_all (\<lambda>a. discard a \<noteq> Throws) (activeArtifacts s1)"
    and "run (Resume c # ls2) s1 = Some s"
    and "UntrackArtifact x \<notin> set ls1"
  shows "count_list (discarded (trace s)) x = count_list ls1 (TrackArtifact x)"
proof -
  from run_teardownInv[OF assms(1) teardownInv_initial] have inv: "teardownInv s1" .
  from assms(3) have t: "isTerminating (frames s1 ! c)" by simp
  note only = teardownInv_only[OF inv assms(2) t]
  from assms(2,3) have res: "resume c s1 = Some (discardArtifacts c s1)"
    by (simp add: resume_def)
  with assms(5) have r: "run ls2 (discardArtifacts c s1) = Some s" by simp
  have d: "discarded (trace (discardArtifacts c s1)) = activeArtifacts s1"
    using only(2) assms(4) by (simp add: lifecycle_defs emit_defs discarded_discardEvents)
  have "teardownPast (discardArtifacts c s1)"
    unfolding teardownPast_def using only(1,3) assms(2,4)
    by (auto simp: lifecycle_defs emit_defs nth_list_update)
  from run_teardownPast[OF r this] d have "discarded (trace s) = activeArtifacts s1" by simp
  with run_activeArtifacts[OF assms(1)] show ?thesis by simp
qed

text \<open>The theorem for an artifact tracked once, beside one tracked twice.\<close>

theorem teardown_discards_each_tracking_witness:
  "count_list [TrackArtifact shot, TrackArtifact clip, TrackArtifact clip, Terminate]
      (TrackArtifact shot) = 1
   \<and> (\<exists>s. run [TrackArtifact shot, TrackArtifact clip, TrackArtifact clip, Terminate,
                Resume 0, Settles 0 0, Settles 0 0, Settles 0 0, Resume 0] initial = Some s
          \<and> frames s = [Settled Fulfilled]
          \<and> count_list (discarded (trace s)) shot = 1)"
proof -
  have "\<exists>s1 s. run [TrackArtifact shot, TrackArtifact clip, TrackArtifact clip, Terminate] initial = Some s1
           \<and> 0 < length (frames s1) \<and> frames s1 ! 0 = Terminating []
           \<and> list_all (\<lambda>a. discard a \<noteq> Throws) (activeArtifacts s1)
           \<and> run [Resume 0, Settles 0 0, Settles 0 0, Settles 0 0, Resume 0] s1 = Some s
           \<and> frames s = [Settled Fulfilled]"
    by (simp add: step_defs initial_def shot_def clip_def dropAt_def Let_def)
  then obtain s1 s where
    r1: "run [TrackArtifact shot, TrackArtifact clip, TrackArtifact clip, Terminate] initial = Some s1"
    and l: "0 < length (frames s1)" and fr: "frames s1 ! 0 = Terminating []"
    and ok: "list_all (\<lambda>a. discard a \<noteq> Throws) (activeArtifacts s1)"
    and r2: "run (Resume 0 # [Settles 0 0, Settles 0 0, Settles 0 0, Resume 0]) s1 = Some s"
    and f: "frames s = [Settled Fulfilled]"
    by auto
  have u: "UntrackArtifact shot \<notin> set [TrackArtifact shot, TrackArtifact clip, TrackArtifact clip, Terminate]"
    by simp
  have n: "count_list [TrackArtifact shot, TrackArtifact clip, TrackArtifact clip, Terminate]
      (TrackArtifact shot) = 1"
    by (simp add: shot_def clip_def)
  have c: "count_list (discarded (trace s)) shot = 1"
    using teardown_discards_each_tracking[OF r1 l fr ok r2 u] n by simp
  have "run [TrackArtifact shot, TrackArtifact clip, TrackArtifact clip, Terminate,
                Resume 0, Settles 0 0, Settles 0 0, Settles 0 0, Resume 0] initial = Some s"
    using r1 r2 run_append[of "[TrackArtifact shot, TrackArtifact clip, TrackArtifact clip, Terminate]"
                              "[Resume 0, Settles 0 0, Settles 0 0, Settles 0 0, Resume 0]" initial]
    by simp
  with c n f show ?thesis by blast
qed

text \<open>The claim as first stated fails: an artifact passed to \<^verbatim>\<open>trackArtifact\<close> twice and never
  untracked has \<^verbatim>\<open>discard()\<close> called twice by teardown.\<close>

theorem teardown_discards_twice_tracked_artifact_twice:
  "map_option trace (run [TrackArtifact shot, TrackArtifact shot, Terminate, Resume 0] initial)
     = Some [DiscardInvoked shot, DiscardInvoked shot]"
  by (simp add: step_defs initial_def shot_def)

section \<open>The idle chain runs the callbacks in order\<close>

lemma idleEvents_append [simp]: "idleEvents (xs @ ys) = idleEvents xs @ idleEvents ys"
  by (simp add: idleEvents_def)

lemma idleEvents_Nil [simp]: "idleEvents [] = []"
  by (simp add: idleEvents_def)

lemma idleEvents_Cons [simp]:
  "idleEvents (e # es) = (if isIdleEvent e then e # idleEvents es else idleEvents es)"
  by (simp add: idleEvents_def)

lemma idleEvents_hookEvents [simp]: "idleEvents (hookEvents c m a ps) = []"
  by (induction ps) (simp_all add: hookEvents_def)

lemma idleEvents_terminateEvents [simp]: "idleEvents (terminateEvents c ps) = []"
  by (induction ps) simp_all

lemma idleEvents_discardEvents [simp]: "idleEvents (discardEvents as) = []"
  by (induction as) simp_all

lemma serial_append [simp]: "serial (xs @ ys) = serial xs @ serial ys"
  by (simp add: serial_def)

lemma serial_Nil [simp]: "serial [] = []"
  by (simp add: serial_def)

lemma serial_take_Suc:
  "k < length R \<Longrightarrow> serial (take (Suc k) R) = serial (take k R) @ [IdleStarted (R ! k), idleEnd (R ! k)]"
  by (simp add: take_Suc_conv_app_nth serial_def)

lemma isIdleEvent_idleEnd [simp]: "isIdleEvent (idleEnd cb)"
  by (simp add: idleEnd_def)

lemma chainInv_other:
  assumes "chainInv R s"
    and "terminated s' = terminated s" and "idlePromise s' = idlePromise s"
    and "idleSettled s' = idleSettled s" and "idleActive s' = idleActive s"
    and "onIdleCallbacks s' = onIdleCallbacks s" and "idleScheduled s' = idleScheduled s"
    and "idleInFlight s' = idleInFlight s" and "idleEvents (trace s') = idleEvents (trace s)"
  shows "chainInv R s'"
  using assms unfolding chainInv_def by simp

lemma step_chain_other:
  assumes "step l s = Some s'"
    and "l \<noteq> IdleContinue" "l \<noteq> IdleInvoke" "l \<noteq> IdleDone"
    and "\<forall>j. l \<noteq> IdleSettles j" and "\<forall>cb p. l \<noteq> RequestIdleCallback cb p"
  shows "terminated s' = terminated s \<and> idlePromise s' = idlePromise s
       \<and> idleSettled s' = idleSettled s \<and> idleActive s' = idleActive s
       \<and> onIdleCallbacks s' = onIdleCallbacks s \<and> idleScheduled s' = idleScheduled s
       \<and> idleInFlight s' = idleInFlight s \<and> idleEvents (trace s') = idleEvents (trace s)"
  using assms
  by (cases l)
     (auto simp: step_defs Let_def split: if_splits list.splits frame.splits option.splits)

lemma request_chainInv:
  assumes "chainInv R s"
  shows "chainInv (R @ [cb]) (requestIdleCallback cb p s)"
  using assms unfolding chainInv_def
  by (auto simp: requestIdleCallback_def nth_append split: if_splits)

lemma continue_chainInv:
  assumes "chainInv R s" and "idleContinue s = Some s'"
  shows "chainInv R s'"
  using assms unfolding chainInv_def
  by (auto simp: idleContinue_def runNextIdleTask_def Cons_nth_drop_Suc[symmetric]
           split: if_splits list.splits)

lemma invoke_chainInv:
  assumes "chainInv R s" and "idleInvoke s = Some s'"
  shows "chainInv R s'"
  using assms unfolding chainInv_def
  by (auto simp: idleInvoke_def emits_def split: if_splits list.splits)

lemma settles_chainInv:
  assumes inv: "chainInv R s" and st: "idleSettles j s = Some s'"
  shows "chainInv R s'"
proof -
  from st have j: "j < length (idleInFlight s)"
    by (simp add: idleSettles_def split: if_splits)
  then have ne: "idleInFlight s \<noteq> []" by auto
  from inv ne have act: "idleActive s"
    unfolding chainInv_def by (auto split: if_splits)
  from inv act ne have fl: "idleInFlight s = [R ! idleSettled s]"
    and sch: "idleScheduled s = []"
    and ev: "idleEvents (trace s) = serial (take (idleSettled s) R) @ [IdleStarted (R ! idleSettled s)]"
    unfolding chainInv_def by auto
  from inv act have k: "idleSettled s < length R"
    and q: "onIdleCallbacks s = drop (Suc (idleSettled s)) R"
    and rest: "\<not> terminated s" "idlePromise s = length R"
    unfolding chainInv_def by auto
  from j fl have j0: "j = 0" by simp
  have upd: "terminated s' = terminated s" "idlePromise s' = idlePromise s"
    "idleSettled s' = idleSettled s" "idleActive s' = idleActive s"
    "onIdleCallbacks s' = onIdleCallbacks s" "idleScheduled s' = idleScheduled s"
    "idleInFlight s' = []"
    "idleEvents (trace s') = idleEvents (trace s) @ [idleEnd (R ! idleSettled s)]"
    using st j0 fl
    by (auto simp: idleSettles_def emits_def idleCallbackErrorHandle_def errorHandler_def
                   Let_def dropAt_def idleEnd_def split: if_splits)
  show ?thesis
    unfolding chainInv_def
    using upd act k q rest sch ev by (simp add: serial_take_Suc)
qed

lemma done_chainInv:
  assumes "chainInv R s" and "idleDone s = Some s'"
  shows "chainInv R s'"
  using assms unfolding chainInv_def
  by (auto simp: idleDone_def split: if_splits list.splits)

lemma step_chainInv:
  assumes "step l s = Some s'" and "chainInv R s"
  shows "chainInv (R @ requestOf l) s'"
proof (cases l)
  case (RequestIdleCallback cb p)
  with assms request_chainInv show ?thesis by auto
next
  case IdleContinue
  with assms continue_chainInv show ?thesis by auto
next
  case IdleInvoke
  with assms invoke_chainInv show ?thesis by auto
next
  case (IdleSettles j)
  with assms settles_chainInv show ?thesis by auto
next
  case IdleDone
  with assms done_chainInv show ?thesis by auto
qed (use assms step_chain_other[OF assms(1)] in \<open>auto intro: chainInv_other\<close>)


lemma chainInv_initial: "chainInv [] initial"
  by (simp add: chainInv_def initial_def)

lemma run_chainInv:
  "run ls s0 = Some s \<Longrightarrow> chainInv R s0 \<Longrightarrow> chainInv (R @ requested ls) s"
proof (induction ls arbitrary: s0 R)
  case Nil
  then show ?case by (simp add: requested_def)
next
  case (Cons l ls)
  from Cons.prems obtain s1 where st: "step l s0 = Some s1" and r: "run ls s1 = Some s"
    by (auto split: option.splits)
  from Cons.IH[OF r step_chainInv[OF st Cons.prems(2)]] show ?case
    by (simp add: requested_def)
qed

lemma serial_take_prefix: "prefix (serial (take k R)) (serial R)"
proof -
  have "serial R = serial (take k R) @ serial (drop k R)"
    by (simp flip: serial_append)
  then show ?thesis by (simp add: prefix_def)
qed

lemma serial_take_started_prefix:
  assumes "k < length R"
  shows "prefix (serial (take k R) @ [IdleStarted (R ! k)]) (serial R)"
proof -
  have "prefix (serial (take k R) @ [IdleStarted (R ! k)]) (serial (take (Suc k) R))"
    using assms by (simp add: serial_take_Suc)
  then show ?thesis
    using serial_take_prefix[of "Suc k" R] prefix_order.trans by blast
qed

lemma chainInv_prefix:
  assumes "chainInv R s"
  shows "prefix (idleEvents (trace s)) (serial R)"
  using assms serial_take_prefix[of "idleSettled s" R] serial_take_prefix[of "Suc (idleSettled s)" R]
    serial_take_started_prefix[of "idleSettled s" R]
  unfolding chainInv_def by (auto split: if_splits)

lemma chainInv_settled:
  assumes "chainInv R s" and "n \<le> idleSettled s"
  shows "prefix (serial (take n R)) (idleEvents (trace s))"
proof -
  have a: "prefix (serial (take n R)) (serial (take (idleSettled s) R))"
    using serial_take_prefix[of n "take (idleSettled s) R"] assms(2) by (simp add: min_def)
  have b: "prefix (serial (take (idleSettled s) R)) (idleEvents (trace s))"
    using assms(1) unfolding chainInv_def
    by (auto simp: serial_take_Suc split: if_splits)
  from a b show ?thesis using prefix_order.trans by blast
qed

text \<open>
  Claim C6. Take any schedule, with any number of \<^verbatim>\<open>requestIdleCallback\<close> calls by any callers
  among it. The starts and ends of idle callbacks in the trace form an initial segment of:
  start of the first callback requested, its end, start of the second, its end, and so on in
  the order of the requests. And in the state reached at most one callback is scheduled or
  running. For three requests \<open>A\<close>, \<open>B\<close>, \<open>C\<close> the trace is an initial segment of start \<open>A\<close>, end
  \<open>A\<close>, start \<open>B\<close>, end \<open>B\<close>, start \<open>C\<close>, end \<open>C\<close>: \<open>B\<close> starts only after \<open>A\<close> has ended and \<open>C\<close>
  only after \<open>B\<close> has ended. The schedules of the claim, in which the requests come before
  \<^verbatim>\<open>onTerminate\<close> is called, are among these, whether the callbacks run before that call or
  after it.
\<close>

theorem idle_callbacks_run_one_at_a_time_in_order:
  assumes "run ls initial = Some s"
  shows "prefix (idleEvents (trace s)) (serial (requested ls))
       \<and> length (idleScheduled s @ idleInFlight s) \<le> 1"
proof -
  from run_chainInv[OF assms chainInv_initial] have inv: "chainInv (requested ls) s" by simp
  from chainInv_prefix[OF inv] have "prefix (idleEvents (trace s)) (serial (requested ls))" .
  moreover from inv have "length (idleScheduled s @ idleInFlight s) \<le> 1"
    unfolding chainInv_def by (auto split: if_splits)
  ultimately show ?thesis by simp
qed


text \<open>The theorem for three callbacks requested by two plugins, up to the start of the third.\<close>

theorem idle_callbacks_run_one_at_a_time_in_order_witness:
  "\<exists>s. run [RequestIdleCallback taskA recorder, RequestIdleCallback taskB crasher,
             RequestIdleCallback taskC recorder,
             IdleContinue, IdleInvoke, IdleSettles 0, IdleDone,
             IdleContinue, IdleInvoke, IdleSettles 0, IdleDone,
             IdleContinue, IdleInvoke] initial = Some s
       \<and> idleEvents (trace s)
           = [IdleStarted taskA, IdleFulfilled taskA, IdleStarted taskB, IdleFailed taskB,
              IdleStarted taskC]
       \<and> prefix (idleEvents (trace s))
            [IdleStarted taskA, IdleFulfilled taskA, IdleStarted taskB, IdleFailed taskB,
             IdleStarted taskC, IdleFulfilled taskC]"
proof -
  have "\<exists>s. run [RequestIdleCallback taskA recorder, RequestIdleCallback taskB crasher,
             RequestIdleCallback taskC recorder,
             IdleContinue, IdleInvoke, IdleSettles 0, IdleDone,
             IdleContinue, IdleInvoke, IdleSettles 0, IdleDone,
             IdleContinue, IdleInvoke] initial = Some s
       \<and> idleEvents (trace s)
           = [IdleStarted taskA, IdleFulfilled taskA, IdleStarted taskB, IdleFailed taskB,
              IdleStarted taskC]"
    by (simp add: step_defs initial_def Let_def dropAt_def taskA_def taskB_def taskC_def)
  then obtain s where r: "run [RequestIdleCallback taskA recorder, RequestIdleCallback taskB crasher,
             RequestIdleCallback taskC recorder,
             IdleContinue, IdleInvoke, IdleSettles 0, IdleDone,
             IdleContinue, IdleInvoke, IdleSettles 0, IdleDone,
             IdleContinue, IdleInvoke] initial = Some s"
    and e: "idleEvents (trace s)
           = [IdleStarted taskA, IdleFulfilled taskA, IdleStarted taskB, IdleFailed taskB,
              IdleStarted taskC]"
    by auto
  from idle_callbacks_run_one_at_a_time_in_order[OF r]
  have "prefix (idleEvents (trace s))
            [IdleStarted taskA, IdleFulfilled taskA, IdleStarted taskB, IdleFailed taskB,
             IdleStarted taskC, IdleFulfilled taskC]"
    by (simp add: requested_def serial_def idleEnd_def taskA_def taskB_def taskC_def)
  with r e show ?thesis by blast
qed

section \<open>\<^verbatim>\<open>onAfterAll\<close> waits for the idle chain\<close>

lemma step_awaiting:
  assumes "step l s = Some s'" and "c < length (frames s)"
    and "frames s ! c = AwaitingIdle n \<or> frames s ! c = Settled Fulfilled \<and> n \<le> idleSettled s"
  shows "c < length (frames s')
       \<and> (frames s' ! c = AwaitingIdle n \<or> frames s' ! c = Settled Fulfilled \<and> n \<le> idleSettled s')"
  using assms
  by (cases l)
     (auto simp: step_defs Let_def nth_append nth_list_update
           split: if_splits list.splits frame.splits option.splits)

lemma run_awaiting:
  "run ls s0 = Some s \<Longrightarrow> c < length (frames s0) \<Longrightarrow>
   frames s0 ! c = AwaitingIdle n \<or> frames s0 ! c = Settled Fulfilled \<and> n \<le> idleSettled s0 \<Longrightarrow>
     c < length (frames s)
       \<and> (frames s ! c = AwaitingIdle n \<or> frames s ! c = Settled Fulfilled \<and> n \<le> idleSettled s)"
proof (induction ls arbitrary: s0)
  case Nil
  then show ?case by simp
next
  case (Cons l ls)
  from Cons.prems obtain s1 where st: "step l s0 = Some s1" and r: "run ls s1 = Some s"
    by (auto split: option.splits)
  from step_awaiting[OF st Cons.prems(2,3)] Cons.IH[OF r] show ?case by simp
qed

text \<open>
  Claim C9. Let an activation \<open>c\<close> of \<^verbatim>\<open>onAfterAll\<close> be at the end of its fan-out: every
  \<^verbatim>\<open>onAfterAll\<close> hook has settled and \<^verbatim>\<open>await this._emit(...)\<close> is about to return. \<open>ls1\<close> is all
  that happened until then, before and during the fan-out. If, after any further schedule, the
  promise of that activation is fulfilled, then every idle callback requested in \<open>ls1\<close> has
  been started and has ended, in the order of the requests.
\<close>

theorem onAfterAll_returns_after_idle_chain:
  assumes "run ls1 initial = Some s1"
    and "c < length (frames s1)" and "frames s1 ! c = Emitting OnAfterAll a []"
    and "run (Resume c # ls2) s1 = Some s"
    and "frames s ! c = Settled Fulfilled"
  shows "prefix (serial (requested ls1)) (idleEvents (trace s))"
proof -
  from run_chainInv[OF assms(1) chainInv_initial] have inv1: "chainInv (requested ls1) s1" by simp
  then have n: "idlePromise s1 = length (requested ls1)" by (simp add: chainInv_def)
  from assms(2,3) have res: "resume c s1 = Some (setFrame c (AwaitingIdle (idlePromise s1)) s1)"
    by (simp add: resume_def)
  with assms(4) have r: "run ls2 (setFrame c (AwaitingIdle (idlePromise s1)) s1) = Some s" by simp
  have "c < length (frames (setFrame c (AwaitingIdle (idlePromise s1)) s1))"
    and "frames (setFrame c (AwaitingIdle (idlePromise s1)) s1) ! c = AwaitingIdle (idlePromise s1)"
    using assms(2) by (simp_all add: setFrame_def)
  from run_awaiting[OF r this(1)] this(2) assms(5) have le: "idlePromise s1 \<le> idleSettled s"
    by auto
  from run_chainInv[OF assms(4) inv1]
  have inv: "chainInv (requested ls1 @ requested (Resume c # ls2)) s" .
  from chainInv_settled[OF inv le] n show ?thesis by simp
qed

text \<open>The theorem for one callback requested before \<^verbatim>\<open>onAfterAll\<close> and one during its
  fan-out.\<close>

theorem onAfterAll_returns_after_idle_chain_witness:
  "\<exists>s1 s. run [RegisterArtifactPlugins [recorder], RequestIdleCallback taskA recorder, AfterAll,
                RequestIdleCallback taskB recorder, Settles 0 0] initial = Some s1
        \<and> frames s1 = [Emitting OnAfterAll NoArgs []]
        \<and> run [Resume 0, IdleContinue, IdleInvoke, IdleSettles 0, IdleDone,
                IdleContinue, IdleInvoke, IdleSettles 0, IdleDone, Resume 0] s1 = Some s
        \<and> frames s = [Settled Fulfilled]
        \<and> prefix [IdleStarted taskA, IdleFulfilled taskA, IdleStarted taskB, IdleFailed taskB]
             (idleEvents (trace s))"
proof -
  have "\<exists>s1 s. run [RegisterArtifactPlugins [recorder], RequestIdleCallback taskA recorder, AfterAll,
                RequestIdleCallback taskB recorder, Settles 0 0] initial = Some s1
        \<and> frames s1 = [Emitting OnAfterAll NoArgs []]
        \<and> run [Resume 0, IdleContinue, IdleInvoke, IdleSettles 0, IdleDone,
                IdleContinue, IdleInvoke, IdleSettles 0, IdleDone, Resume 0] s1 = Some s
        \<and> frames s = [Settled Fulfilled]"
    by (simp add: step_defs initial_def Let_def dropAt_def taskA_def taskB_def recorder_def)
  then obtain s1 s where
    r1: "run [RegisterArtifactPlugins [recorder], RequestIdleCallback taskA recorder, AfterAll,
                RequestIdleCallback taskB recorder, Settles 0 0] initial = Some s1"
    and f1: "frames s1 = [Emitting OnAfterAll NoArgs []]"
    and r2: "run (Resume 0 # [IdleContinue, IdleInvoke, IdleSettles 0, IdleDone,
                IdleContinue, IdleInvoke, IdleSettles 0, IdleDone, Resume 0]) s1 = Some s"
    and f2: "frames s = [Settled Fulfilled]"
    by auto
  from f1 have l: "0 < length (frames s1)" and e: "frames s1 ! 0 = Emitting OnAfterAll NoArgs []"
    by simp_all
  from f2 have d: "frames s ! 0 = Settled Fulfilled" by simp
  from onAfterAll_returns_after_idle_chain[OF r1 l e r2 d]
  have "prefix [IdleStarted taskA, IdleFulfilled taskA, IdleStarted taskB, IdleFailed taskB]
             (idleEvents (trace s))"
    by (simp add: requested_def serial_def idleEnd_def taskA_def taskB_def)
  with r1 f1 r2 f2 show ?thesis by auto
qed

section \<open>Fan-out isolates the plugins from each other\<close>

lemma hookCalls_append [simp]: "hookCalls (xs @ ys) = hookCalls xs @ hookCalls ys"
  by (simp add: hookCalls_def)

lemma hookCalls_hookEvents: "hookCalls (hookEvents c m a ps) = map (\<lambda>p. (c, p, m, a)) ps"
  by (induction ps) (auto simp: hookCalls_def hookEvents_def)

lemma endings_append [simp]: "endings c (xs @ ys) = endings c xs @ endings c ys"
  by (simp add: endings_def)

lemma endings_Nil [simp]: "endings c [] = []"
  by (simp add: endings_def)

lemma endings_Cons [simp]: "endings c (e # es) = endingOf c e @ endings c es"
  by (simp add: endings_def)

lemma endings_hookEvents_same:
  "endings c (hookEvents c m a ps) = map (expected m) (filter (\<lambda>p. reacts p m = Throws) ps)"
  by (induction ps) (auto simp: hookEvents_def expected_def)

lemma endings_hookEvents_other: "c' \<noteq> c \<Longrightarrow> endings c (hookEvents c' m a ps) = []"
  by (induction ps) (auto simp: hookEvents_def)

lemma endings_terminateEvents_other: "c' \<noteq> c \<Longrightarrow> endings c (terminateEvents c' ps) = []"
  by (induction ps) auto

lemma endings_discardEvents [simp]: "endings c (discardEvents as) = []"
  by (induction as) auto

lemma activations_append [simp]: "activations (xs @ ys) = activations xs @ activations ys"
  by (simp add: activations_def)

lemma activations_Nil [simp]: "activations [] = []"
  by (simp add: activations_def)

lemma activations_Cons [simp]: "activations (e # es) = activationOf e @ activations es"
  by (simp add: activations_def)

lemma activations_hookEvents: "set (activations (hookEvents c m a ps)) \<subseteq> {c}"
  by (induction ps) (auto simp: hookEvents_def)

lemma activations_terminateEvents: "set (activations (terminateEvents c ps)) \<subseteq> {c}"
  by (induction ps) auto

lemma activations_discardEvents [simp]: "activations (discardEvents as) = []"
  by (induction as) auto

lemma endings_unknown: "list_all (\<lambda>c'. c' < c) (activations tr) \<Longrightarrow> endings c tr = []"
proof (induction tr)
  case Nil
  then show ?case by simp
next
  case (Cons e tr)
  then show ?case by (cases e) auto
qed

lemma knownActivations_iff:
  "knownActivations s = (\<forall>c \<in> set (activations (trace s)). c < length (frames s))"
  by (simp add: knownActivations_def list_all_iff)

lemma step_knownActivations:
  assumes "step l s = Some s'" and "knownActivations s"
  shows "knownActivations s'"
  using assms activations_hookEvents[of "length (frames s)"]
    activations_terminateEvents[of "length (frames s)" "artifactPlugins s"]
  unfolding knownActivations_iff
  by (cases l)
     (fastforce simp: step_defs Let_def
           split: if_splits list.splits frame.splits option.splits)+

lemma run_knownActivations:
  "run ls s0 = Some s \<Longrightarrow> knownActivations s0 \<Longrightarrow> knownActivations s"
proof (induction ls arbitrary: s0)
  case Nil
  then show ?case by simp
next
  case (Cons l ls)
  from Cons.prems obtain s1 where st: "step l s0 = Some s1" and r: "run ls s1 = Some s"
    by (auto split: option.splits)
  from Cons.IH[OF r step_knownActivations[OF st Cons.prems(2)]] show ?case .
qed

lemma knownActivations_initial: "knownActivations initial"
  by (simp add: knownActivations_def initial_def)

lemma step_fanout:
  assumes "fanoutOf l s = Some (m, a)" and "step l s = Some s'"
  shows "trace s' = trace s @ hookEvents (length (frames s)) m a (artifactPlugins s)"
    and "frames s' = frames s @ [Emitting m a (filter (\<lambda>p. reacts p m \<noteq> Throws) (artifactPlugins s))]"
    and "idlePromise s' = idlePromise s"
  using assms
  by (cases l; auto simp: step_defs Let_def split: if_splits)+

lemma mset_map_filter_split:
  "mset (map f (filter P xs)) + mset (map f (filter (\<lambda>x. \<not> P x) xs)) = mset (map f xs)"
  by (induction xs) auto

lemma emitInv_fanout:
  assumes "fanoutOf l s = Some (m, a)" and "step l s = Some s'" and "knownActivations s"
  shows "emitInv (length (frames s)) m a (artifactPlugins s) s'"
proof -
  from assms(3) have "endings (length (frames s)) (trace s) = []"
    by (simp add: knownActivations_def endings_unknown)
  with mset_map_filter_split[of "expected m" "\<lambda>p. reacts p m = Throws" "artifactPlugins s"]
  show ?thesis
    unfolding emitInv_def step_fanout[OF assms(1,2)]
    by (simp add: endings_hookEvents_same)
qed

lemma step_idlePromise_mono:
  assumes "step l s = Some s'"
  shows "idlePromise s \<le> idlePromise s'"
  using assms
  by (cases l)
     (auto simp: step_defs Let_def split: if_splits list.splits frame.splits option.splits)

lemma step_frame_other:
  assumes "step l s = Some s'" and "c < length (frames s)"
    and "\<forall>j. l \<noteq> Settles c j" and "l \<noteq> Resume c"
  shows "c < length (frames s') \<and> frames s' ! c = frames s ! c"
  using assms
  by (cases l)
     (auto simp: step_defs Let_def nth_append nth_list_update
           split: if_splits list.splits frame.splits option.splits)

lemma step_endings_other:
  assumes "step l s = Some s'" and "c < length (frames s)" and "\<forall>j. l \<noteq> Settles c j"
  shows "endings c (trace s') = endings c (trace s)"
  using assms
  by (cases l)
     (auto simp: step_defs Let_def endings_hookEvents_other endings_terminateEvents_other
           split: if_splits list.splits frame.splits option.splits)

lemma mset_dropAt: "j < length xs \<Longrightarrow> add_mset (xs ! j) (mset (dropAt j xs)) = mset xs"
proof -
  assume j: "j < length xs"
  have "mset xs = mset (take j xs @ xs ! j # drop (Suc j) xs)"
    by (simp only: id_take_nth_drop[OF j, symmetric])
  then show ?thesis by (simp add: dropAt_def)
qed

lemma emitInv_other:
  assumes "emitInv c m a ps s" and "c < length (frames s')" and "frames s' ! c = frames s ! c"
    and "endings c (trace s') = endings c (trace s)" and "idlePromise s \<le> idlePromise s'"
  shows "emitInv c m a ps s'"
  using assms unfolding emitInv_def
  by (auto split: frame.splits)

lemma settles_emitInv:
  assumes "settles c j s = Some s'" and inv: "emitInv c m a ps s"
  shows "emitInv c m a ps s'"
proof -
  from inv have c: "c < length (frames s)" by (simp add: emitInv_def)
  from assms(1) c inv obtain pend where fr: "frames s ! c = Emitting m a pend" and j: "j < length pend"
    by (cases "frames s ! c") (auto simp: settles_def emitInv_def split: if_splits)
  from inv fr have all: "mset (endings c (trace s)) + mset (map (expected m) pend)
                          = mset (map (expected m) ps)"
    by (simp add: emitInv_def)
  define q where "q = pend ! j"
  from assms(1) c fr j have fr': "frames s' = (frames s)[c := Emitting m a (dropAt j pend)]"
    and tr: "endings c (trace s') = endings c (trace s) @ [expected m q]"
    by (auto simp: settles_def emit_defs Let_def q_def expected_def split: if_splits)
  have "mset (map (expected m) pend)
          = add_mset (expected m q) (mset (map (expected m) (dropAt j pend)))"
    using mset_dropAt[OF j] unfolding q_def
    by (metis image_mset_add_mset mset_map)
  with all have "mset (endings c (trace s')) + mset (map (expected m) (dropAt j pend))
                   = mset (map (expected m) ps)"
    unfolding tr by simp
  then show ?thesis
    unfolding emitInv_def using c fr' by simp
qed

lemma resume_emitInv:
  assumes "resume c s = Some s'" and inv: "emitInv c m a ps s"
  shows "emitInv c m a ps s'"
  using assms unfolding emitInv_def
  by (cases "frames s ! c")
     (auto simp: resume_def emit_defs split: if_splits)

lemma step_emitInv:
  assumes "step l s = Some s'" and inv: "emitInv c m a ps s"
  shows "emitInv c m a ps s'"
proof -
  from inv have c: "c < length (frames s)" by (simp add: emitInv_def)
  consider j where "l = Settles c j" | "l = Resume c" | "\<forall>j. l \<noteq> Settles c j" "l \<noteq> Resume c"
    by blast
  then show ?thesis
  proof cases
    case 1
    with assms settles_emitInv show ?thesis by auto
  next
    case 2
    with assms resume_emitInv show ?thesis by auto
  next
    case 3
    from step_frame_other[OF assms(1) c 3] step_endings_other[OF assms(1) c 3(1)]
      step_idlePromise_mono[OF assms(1)] emitInv_other[OF inv]
    show ?thesis by blast
  qed
qed

lemma run_emitInv:
  "run ls s0 = Some s \<Longrightarrow> emitInv c m a ps s0 \<Longrightarrow> emitInv c m a ps s"
proof (induction ls arbitrary: s0)
  case Nil
  then show ?case by simp
next
  case (Cons l ls)
  from Cons.prems obtain s1 where st: "step l s0 = Some s1" and r: "run ls s1 = Some s"
    by (auto split: option.splits)
  from Cons.IH[OF r step_emitInv[OF st Cons.prems(2)]] show ?case .
qed


lemma settle_all_hooks:
  "c < length (frames s) \<Longrightarrow> frames s ! c = Emitting m a pend \<Longrightarrow>
     \<exists>s'. run (replicate (length pend) (Settles c 0)) s = Some s'
        \<and> frames s' = (frames s)[c := Emitting m a []]"
proof (induction pend arbitrary: s)
  case Nil
  then have "(frames s)[c := Emitting m a []] = frames s"
    by (metis list_update_id)
  then show ?case by simp
next
  case (Cons p pend)
  define s1 where "s1 = the (settles c 0 s)"
  from Cons.prems have st: "settles c 0 s = Some s1"
    and fr: "frames s1 = (frames s)[c := Emitting m a pend]"
    by (auto simp: s1_def settles_def emit_defs Let_def dropAt_def)
  from Cons.prems(1) fr have "c < length (frames s1)" "frames s1 ! c = Emitting m a pend"
    by simp_all
  from Cons.IH[OF this] fr st show ?case by simp
qed

lemma link_runs:
  assumes "\<not> idleActive s" and "\<not> terminated s" and "idleSettled s < idlePromise s"
    and "onIdleCallbacks s = cb # q" and "idleScheduled s = []" and "idleInFlight s = []"
  shows "\<exists>s'. run [IdleContinue, IdleInvoke, IdleSettles 0, IdleDone] s = Some s'
           \<and> frames s' = frames s \<and> \<not> idleActive s' \<and> idlePromise s' = idlePromise s
           \<and> idleSettled s' = Suc (idleSettled s)"
  using assms by (simp add: queue_defs emit_defs Let_def dropAt_def)

lemma chain_drains_idle:
  "chainInv R s \<Longrightarrow> \<not> idleActive s \<Longrightarrow> n = length R - idleSettled s \<Longrightarrow>
     \<exists>ls' s'. list_all isJob ls' \<and> run ls' s = Some s' \<and> frames s' = frames s
        \<and> idlePromise s' = idlePromise s \<and> idlePromise s' \<le> idleSettled s'"
proof (induction n arbitrary: s)
  case 0
  then have "idlePromise s \<le> idleSettled s" by (simp add: chainInv_def)
  then have "list_all isJob [] \<and> run [] s = Some s \<and> frames s = frames s
        \<and> idlePromise s = idlePromise s \<and> idlePromise s \<le> idleSettled s"
    by simp
  then show ?case by blast
next
  case (Suc n)
  from Suc.prems have k: "idleSettled s < length R" by simp
  with Suc.prems(1,2) have pre: "\<not> terminated s" "idleSettled s < idlePromise s"
    "onIdleCallbacks s = R ! idleSettled s # drop (Suc (idleSettled s)) R"
    "idleScheduled s = []" "idleInFlight s = []"
    by (simp_all add: chainInv_def Cons_nth_drop_Suc)
  from link_runs[OF Suc.prems(2) pre] obtain s1 where
    r1: "run [IdleContinue, IdleInvoke, IdleSettles 0, IdleDone] s = Some s1"
    and s1: "frames s1 = frames s" "\<not> idleActive s1" "idlePromise s1 = idlePromise s"
      "idleSettled s1 = Suc (idleSettled s)"
    by blast
  from run_chainInv[OF r1 Suc.prems(1)] have inv1: "chainInv R s1"
    by (simp add: requested_def)
  from Suc.prems(3) s1(4) have "n = length R - idleSettled s1" by simp
  from Suc.IH[OF inv1 s1(2) this] obtain ls' s' where
    h: "list_all isJob ls'" "run ls' s1 = Some s'" "frames s' = frames s1"
      "idlePromise s' = idlePromise s1" "idlePromise s' \<le> idleSettled s'"
    by blast
  have "list_all isJob ([IdleContinue, IdleInvoke, IdleSettles 0, IdleDone] @ ls')"
    using h(1) by simp
  moreover have "run ([IdleContinue, IdleInvoke, IdleSettles 0, IdleDone] @ ls') s = Some s'"
    using r1 h(2) by (simp only: run_append option.case)
  ultimately show ?case using h(3,4,5) s1(1,3) by metis
qed

lemma link_finishes:
  assumes "chainInv R s" and "idleActive s"
  shows "\<exists>ls' s'. list_all isJob ls' \<and> run ls' s = Some s' \<and> frames s' = frames s
           \<and> idlePromise s' = idlePromise s \<and> \<not> idleActive s'"
proof -
  from assms consider
      (scheduled) cb where "idleScheduled s = [cb]" "idleInFlight s = []"
    | (running) cb where "idleScheduled s = []" "idleInFlight s = [cb]"
    | (finished) "idleScheduled s = []" "idleInFlight s = []"
    unfolding chainInv_def by auto
  then show ?thesis
  proof cases
    case scheduled
    with assms(2) have "\<exists>s'. run [IdleInvoke, IdleSettles 0, IdleDone] s = Some s' \<and> frames s' = frames s
           \<and> idlePromise s' = idlePromise s \<and> \<not> idleActive s'"
      by (simp add: queue_defs emit_defs Let_def dropAt_def)
    moreover have "list_all isJob [IdleInvoke, IdleSettles 0, IdleDone]" by simp
    ultimately show ?thesis by blast
  next
    case running
    with assms(2) have "\<exists>s'. run [IdleSettles 0, IdleDone] s = Some s' \<and> frames s' = frames s
           \<and> idlePromise s' = idlePromise s \<and> \<not> idleActive s'"
      by (simp add: queue_defs emit_defs Let_def dropAt_def)
    moreover have "list_all isJob [IdleSettles 0, IdleDone]" by simp
    ultimately show ?thesis by blast
  next
    case finished
    with assms(2) have "\<exists>s'. run [IdleDone] s = Some s' \<and> frames s' = frames s
           \<and> idlePromise s' = idlePromise s \<and> \<not> idleActive s'"
      by (simp add: queue_defs)
    moreover have "list_all isJob [IdleDone]" by simp
    ultimately show ?thesis by blast
  qed
qed

lemma requested_jobs: "list_all isJob ls \<Longrightarrow> requested ls = []"
proof (induction ls)
  case Nil
  then show ?case by (simp add: requested_def)
next
  case (Cons l ls)
  then show ?case by (cases l) (simp_all add: requested_def)
qed

lemma chain_drains:
  assumes "chainInv R s"
  shows "\<exists>ls' s'. list_all isJob ls' \<and> run ls' s = Some s' \<and> frames s' = frames s
           \<and> idlePromise s' = idlePromise s \<and> idlePromise s' \<le> idleSettled s'"
proof (cases "idleActive s")
  case False
  from chain_drains_idle[OF assms False refl] show ?thesis .
next
  case True
  from link_finishes[OF assms True] obtain l1 s1 where
    h1: "list_all isJob l1" "run l1 s = Some s1" "frames s1 = frames s"
      "idlePromise s1 = idlePromise s" "\<not> idleActive s1"
    by blast
  from run_chainInv[OF h1(2) assms] requested_jobs[OF h1(1)] have inv1: "chainInv R s1" by simp
  from chain_drains_idle[OF inv1 h1(5) refl] obtain l2 s2 where
    h2: "list_all isJob l2" "run l2 s1 = Some s2" "frames s2 = frames s1"
      "idlePromise s2 = idlePromise s1" "idlePromise s2 \<le> idleSettled s2"
    by blast
  have "list_all isJob (l1 @ l2)" using h1(1) h2(1) by simp
  moreover have "run (l1 @ l2) s = Some s2" using h1(2) h2(2) by (simp add: run_append)
  ultimately show ?thesis using h1(3,4) h2(3,4,5) by metis
qed

lemma await_resolves:
  assumes "chainInv R s" and "c < length (frames s)" and "frames s ! c = AwaitingIdle n"
    and "n \<le> idlePromise s"
  shows "\<exists>ls' s'. list_all isJob ls' \<and> run ls' s = Some s' \<and> frames s' ! c = Settled Fulfilled"
proof -
  from chain_drains[OF assms(1)] obtain l1 s1 where
    h: "list_all isJob l1" "run l1 s = Some s1" "frames s1 = frames s"
      "idlePromise s1 = idlePromise s" "idlePromise s1 \<le> idleSettled s1"
    by blast
  from h(3,4,5) assms(2,3,4) have "\<exists>s'. resume c s1 = Some s' \<and> frames s' ! c = Settled Fulfilled"
    by (simp add: resume_def emit_defs)
  then obtain s' where r: "run [Resume c] s1 = Some s'" and f: "frames s' ! c = Settled Fulfilled"
    by auto
  have "list_all isJob (l1 @ [Resume c])" using h(1) by simp
  moreover have "run (l1 @ [Resume c]) s = Some s'" using h(2) r by (simp only: run_append option.case)
  ultimately show ?thesis using f by blast
qed

lemma emit_resolves:
  assumes "chainInv R s" and "emitInv c m a ps s"
  shows "\<exists>ls' s'. list_all isJob ls' \<and> run ls' s = Some s' \<and> frames s' ! c = Settled Fulfilled"
proof -
  from assms(2) have c: "c < length (frames s)" by (simp add: emitInv_def)
  show ?thesis
  proof (cases "frames s ! c")
    case (Emitting m' a' pend)
    with assms(2) have fr: "frames s ! c = Emitting m a pend" by (simp add: emitInv_def)
    from settle_all_hooks[OF c fr] obtain s1 where
      r1: "run (replicate (length pend) (Settles c 0)) s = Some s1"
      and f1: "frames s1 = (frames s)[c := Emitting m a []]"
      by blast
    have j1: "list_all isJob (replicate (length pend) (Settles c 0))"
      by (simp add: list_all_iff)
    from f1 c have c1: "c < length (frames s1)" and e1: "frames s1 ! c = Emitting m a []"
      by simp_all
    show ?thesis
    proof (cases "m = OnAfterAll")
      case False
      with c1 e1 have "\<exists>s'. resume c s1 = Some s' \<and> frames s' ! c = Settled Fulfilled"
        by (simp add: resume_def emit_defs)
      then obtain s' where r: "run [Resume c] s1 = Some s'" and f: "frames s' ! c = Settled Fulfilled"
        by auto
      have "list_all isJob (replicate (length pend) (Settles c 0) @ [Resume c])"
        using j1 by simp
      moreover have "run (replicate (length pend) (Settles c 0) @ [Resume c]) s = Some s'"
        using r1 r by (simp only: run_append option.case)
      ultimately show ?thesis using f by blast
    next
      case True
      with c1 e1 have "\<exists>s2. resume c s1 = Some s2 \<and> frames s2 ! c = AwaitingIdle (idlePromise s2)
            \<and> c < length (frames s2)"
        by (simp add: resume_def emit_defs)
      then obtain s2 where r2: "run [Resume c] s1 = Some s2"
        and f2: "frames s2 ! c = AwaitingIdle (idlePromise s2)" and c2: "c < length (frames s2)"
        by auto
      have j2: "list_all isJob (replicate (length pend) (Settles c 0) @ [Resume c])"
        using j1 by simp
      have r12: "run (replicate (length pend) (Settles c 0) @ [Resume c]) s = Some s2"
        using r1 r2 by (simp only: run_append option.case)
      from run_chainInv[OF r12 assms(1)] requested_jobs[OF j2] have inv2: "chainInv R s2" by simp
      from await_resolves[OF inv2 c2 f2] obtain l3 s3 where
        h3: "list_all isJob l3" "run l3 s2 = Some s3" "frames s3 ! c = Settled Fulfilled"
        by auto
      have "list_all isJob ((replicate (length pend) (Settles c 0) @ [Resume c]) @ l3)"
        using j2 h3(1) by simp
      moreover have "run ((replicate (length pend) (Settles c 0) @ [Resume c]) @ l3) s = Some s3"
        using r12 h3(2) by (simp only: run_append option.case)
      ultimately show ?thesis using h3(3) by blast
    qed
  next
    case (AwaitingIdle n)
    with assms(2) have "n \<le> idlePromise s" by (simp add: emitInv_def)
    from await_resolves[OF assms(1) c AwaitingIdle this] show ?thesis .
  next
    case (Terminating pend)
    with assms(2) show ?thesis by (simp add: emitInv_def)
  next
    case (Discarding as)
    with assms(2) show ?thesis by (simp add: emitInv_def)
  next
    case (Settled r)
    with assms(2) have "frames s ! c = Settled Fulfilled" by (simp add: emitInv_def)
    then have "list_all isJob [] \<and> run [] s = Some s \<and> frames s ! c = Settled Fulfilled" by simp
    then show ?thesis by blast
  qed
qed


text \<open>
  Claim C5. Let the manager be in any state it can reach, and let a lifecycle call fan out the
  hook \<open>m\<close> with arguments \<open>a\<close> (\<^verbatim>\<open>onBeforeAll\<close>, \<^verbatim>\<open>onBeforeTest\<close>, \<^verbatim>\<open>onBeforeResetDevice\<close>,
  \<^verbatim>\<open>onResetDevice\<close>, \<^verbatim>\<open>onAfterTest\<close>, \<^verbatim>\<open>onAfterAll\<close>, or \<^verbatim>\<open>onLaunchApp\<close> fanning out
  \<^verbatim>\<open>onRelaunchApp\<close>). The call is the activation numbered by the length of \<open>frames\<close> before it.
  Whatever the plugins' hooks do, fulfil, reject or throw:
  \<^item> the call invokes the hook of every registered plugin, once each, in order;
  \<^item> before the call no hook call of this activation has ended: hook calls of earlier
    fan-outs, of the same event or another, do not count for it;
  \<^item> on every schedule that follows, the promise the call returned is never rejected;
  \<^item> on every schedule that follows, the hook calls of this activation that have ended are
    among the registered plugins' hooks, none twice;
  \<^item> whenever that promise is fulfilled, they are all of them: the hook call this activation
    made on each registered plugin has run to its end, fulfilled where the plugin's hook
    fulfils and failed where it rejects or throws;
  \<^item> from every state that follows, the job queue alone can bring that promise to be
    fulfilled.
\<close>

theorem lifecycle_fanout_isolates_failures:
  assumes "run ls0 initial = Some s0" and "fanoutOf l s0 = Some (m, a)"
    and "step l s0 = Some s1" and "run ls s1 = Some s"
  shows "hookCalls (trace s1)
           = hookCalls (trace s0) @ map (\<lambda>p. (length (frames s0), p, m, a)) (artifactPlugins s0)
       \<and> endings (length (frames s0)) (trace s0) = []
       \<and> frames s ! length (frames s0) \<noteq> Settled Rejected
       \<and> mset (endings (length (frames s0)) (trace s))
            \<subseteq># mset (map (expected m) (artifactPlugins s0))
       \<and> (frames s ! length (frames s0) = Settled Fulfilled \<longrightarrow>
            mset (endings (length (frames s0)) (trace s))
              = mset (map (expected m) (artifactPlugins s0)))
       \<and> (\<exists>ls' s'. list_all isJob ls' \<and> run ls' s = Some s'
             \<and> frames s' ! length (frames s0) = Settled Fulfilled)"
proof -
  have calls: "hookCalls (trace s1)
           = hookCalls (trace s0) @ map (\<lambda>p. (length (frames s0), p, m, a)) (artifactPlugins s0)"
    using step_fanout(1)[OF assms(2,3)] by (simp add: hookCalls_hookEvents)
  from run_knownActivations[OF assms(1) knownActivations_initial] have known: "knownActivations s0" .
  then have before: "endings (length (frames s0)) (trace s0) = []"
    by (simp add: knownActivations_def endings_unknown)
  from run_emitInv[OF assms(4) emitInv_fanout[OF assms(2,3) known]]
  have inv: "emitInv (length (frames s0)) m a (artifactPlugins s0) s" .
  have nr: "frames s ! length (frames s0) \<noteq> Settled Rejected"
    using inv unfolding emitInv_def by (auto split: frame.splits)
  have sub: "mset (endings (length (frames s0)) (trace s))
            \<subseteq># mset (map (expected m) (artifactPlugins s0))"
  proof (cases "frames s ! length (frames s0)")
    case (Emitting m' a' pend)
    with inv have "mset (endings (length (frames s0)) (trace s)) + mset (map (expected m) pend)
                     = mset (map (expected m) (artifactPlugins s0))"
      by (simp add: emitInv_def)
    then show ?thesis by (metis mset_subset_eq_add_left)
  qed (use inv in \<open>auto simp: emitInv_def\<close>)
  have fin: "frames s ! length (frames s0) = Settled Fulfilled \<longrightarrow>
            mset (endings (length (frames s0)) (trace s))
              = mset (map (expected m) (artifactPlugins s0))"
    using inv unfolding emitInv_def by (auto split: frame.splits)
  have "run (ls0 @ l # ls) initial = Some s"
    using assms(1,3,4) by (simp add: run_append)
  from run_chainInv[OF this chainInv_initial] have "chainInv (requested (ls0 @ l # ls)) s" by simp
  from emit_resolves[OF this inv] calls before nr sub fin show ?thesis by blast
qed


text \<open>The theorem for a second \<^verbatim>\<open>onBeforeAll\<close> after a first one has completed, with three plugins:
  the first rejects, the second throws, the third fulfils. Right after the second call only
  the throwing hook has ended for it.\<close>

theorem lifecycle_fanout_isolates_failures_witness:
  "\<exists>s0 s1 s.
      run [RegisterArtifactPlugins [crasher, thrower, recorder],
           BeforeAll, Settles 0 0, Settles 0 0, Resume 0] initial = Some s0
      \<and> frames s0 = [Settled Fulfilled]
      \<and> step BeforeAll s0 = Some s1
      \<and> endings 1 (trace s1) = [(thrower, OnBeforeAll, False)]
      \<and> run [Settles 1 1, Settles 1 0, Resume 1] s1 = Some s
      \<and> frames s = [Settled Fulfilled, Settled Fulfilled]
      \<and> endings 1 (trace s)
          = [(thrower, OnBeforeAll, False), (recorder, OnBeforeAll, True), (crasher, OnBeforeAll, False)]
      \<and> mset (endings 1 (trace s)) = mset (map (expected OnBeforeAll) [crasher, thrower, recorder])"
proof -
  have "\<exists>s0 s1 s.
      run [RegisterArtifactPlugins [crasher, thrower, recorder],
           BeforeAll, Settles 0 0, Settles 0 0, Resume 0] initial = Some s0
      \<and> fanoutOf BeforeAll s0 = Some (OnBeforeAll, NoArgs)
      \<and> artifactPlugins s0 = [crasher, thrower, recorder]
      \<and> frames s0 = [Settled Fulfilled]
      \<and> step BeforeAll s0 = Some s1
      \<and> endings 1 (trace s1) = [(thrower, OnBeforeAll, False)]
      \<and> run [Settles 1 1, Settles 1 0, Resume 1] s1 = Some s
      \<and> frames s = [Settled Fulfilled, Settled Fulfilled]
      \<and> endings 1 (trace s)
          = [(thrower, OnBeforeAll, False), (recorder, OnBeforeAll, True), (crasher, OnBeforeAll, False)]"
    by (simp add: step_defs initial_def Let_def dropAt_def hookEvents_def
          crasher_def thrower_def recorder_def)
  then obtain s0 s1 s where
    r0: "run [RegisterArtifactPlugins [crasher, thrower, recorder],
           BeforeAll, Settles 0 0, Settles 0 0, Resume 0] initial = Some s0"
    and fo: "fanoutOf BeforeAll s0 = Some (OnBeforeAll, NoArgs)"
    and ps: "artifactPlugins s0 = [crasher, thrower, recorder]"
    and f0: "frames s0 = [Settled Fulfilled]"
    and st: "step BeforeAll s0 = Some s1"
    and e1: "endings 1 (trace s1) = [(thrower, OnBeforeAll, False)]"
    and r: "run [Settles 1 1, Settles 1 0, Resume 1] s1 = Some s"
    and f: "frames s = [Settled Fulfilled, Settled Fulfilled]"
    and e: "endings 1 (trace s)
          = [(thrower, OnBeforeAll, False), (recorder, OnBeforeAll, True), (crasher, OnBeforeAll, False)]"
    by blast
  from lifecycle_fanout_isolates_failures[OF r0 fo st r] ps f0 f
  have "mset (endings 1 (trace s)) = mset (map (expected OnBeforeAll) [crasher, thrower, recorder])"
    by simp
  with r0 f0 st e1 r f e show ?thesis by blast
qed

section \<open>Worked schedules\<close>

text \<open>A teardown that succeeds, with its whole trace; \<^verbatim>\<open>onTerminate\<close> does not go on while a
  hook or a \<^verbatim>\<open>discard()\<close> is pending; a \<^verbatim>\<open>discard()\<close> that rejects or throws rejects its
  promise.\<close>

lemma teardown_worked_schedules:
  "map_option trace
     (run [RegisterArtifactPlugins [recorder], TrackArtifact shot, Terminate, Settles 0 0,
           Resume 0, Settles 0 0, Resume 0] initial)
     = Some [HookInvoked 0 recorder OnTerminate NoArgs, HookFulfilled 0 recorder OnTerminate,
             DiscardInvoked shot, DiscardFulfilled shot, LogInfo ''terminated all artifacts'']
   \<and> map_option frames
     (run [RegisterArtifactPlugins [recorder], TrackArtifact shot, Terminate, Settles 0 0,
           Resume 0, Settles 0 0, Resume 0] initial)
     = Some [Settled Fulfilled]
   \<and> run [RegisterArtifactPlugins [recorder], TrackArtifact shot, Terminate, Resume 0] initial = None
   \<and> run [RegisterArtifactPlugins [recorder], TrackArtifact shot, Terminate, Settles 0 0,
           Resume 0, Resume 0] initial = None
   \<and> map_option frames
     (run [TrackArtifact (Artifact 2 Rejects), TrackArtifact shot, Terminate, Resume 0, Settles 0 0]
        initial)
     = Some [Settled Rejected]
   \<and> map_option trace
     (run [TrackArtifact (Artifact 2 Throws), TrackArtifact shot, Terminate, Resume 0] initial)
     = Some [DiscardInvoked (Artifact 2 Throws), DiscardFailed (Artifact 2 Throws)]
   \<and> map_option frames
     (run [TrackArtifact (Artifact 2 Throws), TrackArtifact shot, Terminate, Resume 0] initial)
     = Some [Settled Rejected]"
  by (simp add: step_defs initial_def Let_def dropAt_def shot_def recorder_def)

text \<open>A fan-out with a rejecting, a throwing and a fulfilling plugin, with its whole trace;
  the fan-out does not return while a hook is pending; \<^verbatim>\<open>onAfterAll\<close> with a failing idle
  callback, which does not return before the link of the idle chain is fulfilled; the idle
  chain does not move on while a callback is running.\<close>

lemma fanout_worked_schedules:
  "map_option trace
     (run [RegisterArtifactPlugins [crasher, thrower, recorder], BeforeTest ''login'',
           Settles 0 1, Settles 0 0, Resume 0] initial)
     = Some [HookInvoked 0 crasher OnBeforeTest (TestSummary ''login''),
             HookInvoked 0 thrower OnBeforeTest (TestSummary ''login''),
             HookFailed 0 thrower OnBeforeTest, LogError ''unknown'' ''onBeforeTest'',
             HookInvoked 0 recorder OnBeforeTest (TestSummary ''login''),
             HookFulfilled 0 recorder OnBeforeTest,
             HookFailed 0 crasher OnBeforeTest, LogError ''log'' ''onBeforeTest'']
   \<and> map_option frames
     (run [RegisterArtifactPlugins [crasher, thrower, recorder], BeforeTest ''login'',
           Settles 0 1, Settles 0 0, Resume 0] initial)
     = Some [Settled Fulfilled]
   \<and> run [RegisterArtifactPlugins [crasher, thrower, recorder], BeforeTest ''login'',
           Settles 0 1, Resume 0] initial = None
   \<and> map_option trace
     (run [RequestIdleCallback taskB crasher, AfterAll, Resume 0, IdleContinue, IdleInvoke,
           IdleSettles 0, IdleDone, Resume 0] initial)
     = Some [IdleStarted taskB, IdleFailed taskB, LogError ''log'' ''onIdleCallback'',
             LogVerbose ''finalized artifacts successfully'']
   \<and> run [RequestIdleCallback taskB crasher, AfterAll, Resume 0, IdleContinue, IdleInvoke,
           IdleSettles 0, Resume 0] initial = None
   \<and> run [RequestIdleCallback taskB crasher, IdleContinue, IdleInvoke, IdleDone] initial = None
   \<and> run [RequestIdleCallback taskB crasher, IdleContinue, IdleContinue] initial = None
   \<and> run [IdleContinue] initial = None"
  by (simp add: step_defs initial_def Let_def dropAt_def hookEvents_def
        crasher_def thrower_def recorder_def taskB_def truthyStr_def)

section \<open>Where the code departs from the claims\<close>

text \<open>No method of the class assigns \<^verbatim>\<open>this._terminated\<close>; it is falsy in every state.\<close>

lemma terminated_never_set:
  assumes "run ls initial = Some s"
  shows "\<not> terminated s"
  using run_chainInv[OF assms chainInv_initial] by (simp add: chainInv_def)

text \<open>
  Claim C1 asks that an idle callback requested after \<^verbatim>\<open>onTerminate\<close> extends the idle chain
  with a continuation that drains the whole queue. The code does not: \<^verbatim>\<open>onTerminate\<close> runs to
  its end and \<^verbatim>\<open>this._terminated\<close> is still falsy; two callbacks are then requested; the
  continuation of the first link takes \<^verbatim>\<open>_runNextIdleTask\<close>, schedules the first callback
  alone and leaves the second in the queue. \<^verbatim>\<open>_runAllIdleTasks\<close> would have scheduled both.
\<close>

theorem idle_request_after_terminate_is_cooperative:
  "map_option terminated (run [Terminate, Resume 0, Resume 0] initial) = Some False
   \<and> map_option idleScheduled
        (run [Terminate, Resume 0, Resume 0, RequestIdleCallback taskA recorder,
              RequestIdleCallback taskB recorder, IdleContinue] initial) = Some [taskA]
   \<and> map_option onIdleCallbacks
        (run [Terminate, Resume 0, Resume 0, RequestIdleCallback taskA recorder,
              RequestIdleCallback taskB recorder, IdleContinue] initial) = Some [taskB]
   \<and> map_option idleScheduled (map_option runAllIdleTasks
        (run [Terminate, Resume 0, Resume 0, RequestIdleCallback taskA recorder,
              RequestIdleCallback taskB recorder] initial)) = Some [taskA, taskB]"
  by (simp add: step_defs initial_def Let_def)

text \<open>
  Claim C2 asks that \<^verbatim>\<open>onTerminate\<close> isolates the plugins' failures and discards the tracked
  artifacts whether or not a plugin's hook failed. The code does not. With a plugin whose
  \<^verbatim>\<open>onTerminate\<close> hook rejects: the failure is not logged, the promise of \<^verbatim>\<open>onTerminate\<close> is
  rejected, the tracked artifact's \<^verbatim>\<open>discard()\<close> is never called, and teardown cannot go on.
  With a plugin whose hook throws at once: the plugin after it is not even asked to
  terminate.
\<close>

theorem terminate_hook_failure_skips_discard:
  "map_option trace
     (run [RegisterArtifactPlugins [crasher, recorder], TrackArtifact shot, Terminate, Settles 0 0] initial)
     = Some [HookInvoked 0 crasher OnTerminate NoArgs, HookInvoked 0 recorder OnTerminate NoArgs,
             HookFailed 0 crasher OnTerminate]
   \<and> map_option frames
     (run [RegisterArtifactPlugins [crasher, recorder], TrackArtifact shot, Terminate, Settles 0 0] initial)
     = Some [Settled Rejected]
   \<and> run [RegisterArtifactPlugins [crasher, recorder], TrackArtifact shot, Terminate, Settles 0 0,
           Resume 0] initial = None
   \<and> map_option trace
     (run [RegisterArtifactPlugins [thrower, recorder], TrackArtifact shot, Terminate] initial)
     = Some [HookInvoked 0 thrower OnTerminate NoArgs, HookFailed 0 thrower OnTerminate]
   \<and> map_option frames
     (run [RegisterArtifactPlugins [thrower, recorder], TrackArtifact shot, Terminate] initial)
     = Some [Settled Rejected]"
  by (simp add: step_defs initial_def Let_def dropAt_def crasher_def thrower_def recorder_def)

text \<open>And that stays so: once the promise of \<^verbatim>\<open>onTerminate\<close> is rejected with nothing discarded,
  no schedule makes the manager call any \<^verbatim>\<open>discard()\<close>.\<close>

lemma rejected_teardown_never_discards:
  assumes "run ls0 initial = Some s0"
    and "terminateOnce s0 = Some c" and "c < length (frames s0)"
    and "frames s0 ! c = Settled Rejected" and "discarded (trace s0) = []"
    and "run ls s0 = Some s"
  shows "discarded (trace s) = []"
proof -
  from run_teardownInv[OF assms(1) teardownInv_initial] have inv: "teardownInv s0" .
  have "\<not> isTerminating (frames s0 ! i)" if "i < length (frames s0)" for i
  proof
    assume t: "isTerminating (frames s0 ! i)"
    from teardownInv_only(1)[OF inv that t] assms(2) have "i = c" by simp
    with t assms(4) show False by simp
  qed
  with assms(2) have "teardownPast s0" by (simp add: teardownPast_def)
  from run_teardownPast[OF assms(6) this] assms(5) show ?thesis by simp
qed

text \<open>
  Claim C10 asks that \<^verbatim>\<open>untrackArtifact\<close> removes every occurrence of the artifact from the list
  of live artifacts, so that teardown does not discard it. The code does not:
  \<^verbatim>\<open>untrackArtifact\<close> is written as a method, its \<^verbatim>\<open>this\<close> is \<^verbatim>\<open>artifactsApi\<close>, and it pulls from
  a list that does not exist. An artifact tracked twice and untracked once is still twice
  in the manager's list, and teardown calls its \<^verbatim>\<open>discard()\<close> twice; an artifact tracked once
  and untracked is discarded all the same.
\<close>

theorem untrack_leaves_artifact_tracked:
  "activeArtifacts (untrackArtifact shot (trackArtifact shot (trackArtifact shot initial)))
     = [shot, shot]
   \<and> map_option activeArtifacts
        (run [TrackArtifact shot, TrackArtifact shot, UntrackArtifact shot] initial)
     = Some [shot, shot]
   \<and> map_option trace
        (run [TrackArtifact shot, TrackArtifact shot, UntrackArtifact shot, Terminate, Resume 0]
           initial)
     = Some [DiscardInvoked shot, DiscardInvoked shot]
   \<and> map_option trace
        (run [TrackArtifact clip, UntrackArtifact clip, Terminate, Resume 0] initial)
     = Some [DiscardInvoked clip]"
  by (simp add: step_defs initial_def shot_def clip_def Let_def)

end
